theory Spec2Isabelle
  imports Complex_Main "HOL-Library.Word"
begin

unbundle bit_operations_syntax

section \<open>Scalar arithmetic of the integer sample types (FFTComplex.h)\<close>

text \<open>
  \<^verbatim>\<open>sround\<close> is only ever called from \<^verbatim>\<open>smul\<close>, with an argument of type
  \<^verbatim>\<open>int64_t\<close>, so its template parameter is instantiated at \<^verbatim>\<open>int64_t\<close> whatever the
  sample type is. \<^verbatim>\<open>FRACBITS\<close> is the constant 31; \<^verbatim>\<open>1 << (FRACBITS - 1)\<close> is the
  \<^verbatim>\<open>int\<close> value \<open>2 ^ 30\<close>, and \<^verbatim>\<open>>>\<close> on a signed operand is the arithmetic shift.
\<close>

definition FRACBITS :: nat where
  "FRACBITS = 31"

definition sround :: "64 word \<Rightarrow> 64 word" where
  "sround x = signed_drop_bit FRACBITS (x + push_bit (FRACBITS - 1) 1)"

text \<open>
  The integer branch of \<^verbatim>\<open>smul\<close>: both operands are sign-extended to 64 bits,
  multiplied, rounded by \<^verbatim>\<open>sround\<close> and narrowed back to the sample type.
\<close>

definition smul_int :: "'a::len word \<Rightarrow> 'a word \<Rightarrow> 'a word" where
  "smul_int a b = ucast (sround (scast a * scast b))"

section \<open>Scalar and complex arithmetic of the floating-point sample types\<close>

text \<open>
  The floating-point branches of the scalar helpers, over exact real arithmetic:
  a sample is a \<^typ>\<open>real\<close>, a \<^verbatim>\<open>std::complex<T>\<close> is a \<^typ>\<open>complex\<close>, and the
  literal \<^verbatim>\<open>3.141592653589793238L\<close> is \<^term>\<open>pi\<close>.
\<close>

definition scos :: "real \<Rightarrow> real" where
  "scos phase = cos phase"

definition ssin :: "real \<Rightarrow> real" where
  "ssin phase = sin phase"

definition smul :: "real \<Rightarrow> real \<Rightarrow> real" where
  "smul a b = a * b"

definition halve :: "real \<Rightarrow> real" where
  "halve x = x * 0.5"

definition cmul :: "complex \<Rightarrow> complex \<Rightarrow> complex" where
  "cmul a b = Complex (smul (Re a) (Re b) - smul (Im a) (Im b))
                      (smul (Re a) (Im b) + smul (Im a) (Re b))"

definition cexp :: "real \<Rightarrow> complex" where
  "cexp phase = Complex (scos phase) (ssin phase)"

text \<open>\<^verbatim>\<open>halve\<close> at \<^verbatim>\<open>size_t\<close>, as the constructor of \<^verbatim>\<open>FFTReal\<close> uses it: \<^verbatim>\<open>x >> 1\<close>.\<close>

definition halve_size :: "nat \<Rightarrow> nat" where
  "halve_size x = drop_bit 1 x"

section \<open>The constructor of FFTComplex: twiddle tables and factor list\<close>

text \<open>
  Sizes, strides and indices (\<^verbatim>\<open>size_t\<close> and \<^verbatim>\<open>int\<close> in the source) are natural numbers:
  the sizes for which the tables can be allocated are far from the wrap-around of
  either type. The member \<^verbatim>\<open>length\<close> of \<^verbatim>\<open>Factor\<close> is written \<open>flength\<close>; the twiddle
  tables, stored as scalars and read as complex numbers in the source, are lists of
  complex numbers.
\<close>

record Factor =
  radix :: nat
  flength :: nat

record FFTComplex =
  csize :: nat
  factors :: "Factor list"
  twiddlesFwd :: "complex list"
  twiddlesInv :: "complex list"

text \<open>
  \<^verbatim>\<open>size_t root = std::sqrt ((double) size)\<close>: the square root, truncated. The search
  below computes it on the naturals (the local \<^verbatim>\<open>root\<close> is written \<open>rt\<close>, the member
  \<^verbatim>\<open>size\<close> is \<open>csize\<close>).
\<close>

fun isqrt_search :: "nat \<Rightarrow> nat \<Rightarrow> nat" where
  "isqrt_search n 0 = 0"
| "isqrt_search n (Suc k) = (if Suc k * Suc k \<le> n then Suc k else isqrt_search n k)"

definition isqrt :: "nat \<Rightarrow> nat" where
  "isqrt n = isqrt_search n n"

text \<open>The \<^verbatim>\<open>switch (p)\<close> that advances the candidate radix: 4, 2, 3, 5, 7, ...\<close>

definition next_candidate :: "nat \<Rightarrow> nat" where
  "next_candidate p = (if p = 4 then 2 else if p = 2 then 3 else p + 2)"

text \<open>
  The inner loop \<^verbatim>\<open>while (fftSize % p)\<close>: advance the candidate, and take the whole
  residual once the candidate has passed the root.
\<close>

function find_radix :: "nat \<Rightarrow> nat \<Rightarrow> nat \<Rightarrow> nat" where
  "find_radix rt fftSize p =
     (if fftSize mod p \<noteq> 0
      then (let p1 = next_candidate p;
                p2 = (if p1 > rt then fftSize else p1)
            in find_radix rt fftSize p2)
      else p)"
  by pat_completeness auto
termination
  by (relation "measure (\<lambda>(rt, fftSize, p).
        if fftSize mod p = 0 then 0
        else if p = 4 then rt + 5 else Suc (rt + 3 - p))")
     (auto simp: next_candidate_def Let_def split: if_splits)

declare find_radix.simps [simp del]

text \<open>
  The outer \<^verbatim>\<open>do ... while (fftSize > 1)\<close>: one factor is recorded per round. The
  loop need not end for every starting candidate (a candidate 1 never reduces the
  residual), so its result is optional; \<open>None\<close> is a loop that runs forever.
\<close>

partial_function (option) factor_loop :: "nat \<Rightarrow> nat \<Rightarrow> nat \<Rightarrow> Factor list option" where
  "factor_loop rt fftSize p =
     (let p' = find_radix rt fftSize p;
          fftSize' = fftSize div p';
          factor = \<lparr>radix = p', flength = fftSize'\<rparr>
      in if fftSize' > 1
         then Option.bind (factor_loop rt fftSize' p') (\<lambda>fs. Some (factor # fs))
         else Some [factor])"

declare factor_loop.simps [code]

definition make_twiddles :: "nat \<Rightarrow> complex list \<times> complex list" where
  "make_twiddles sz =
     (let factor = - 2 * pi / real sz
      in (map (\<lambda>i. cexp (factor * real i)) [0..<sz],
          map (\<lambda>i. cexp (factor * real i * - 1)) [0..<sz]))"

definition FFTComplex_new :: "nat \<Rightarrow> FFTComplex option" where
  "FFTComplex_new fftSize =
     (let (fwd, bwd) = make_twiddles fftSize
      in Option.bind (factor_loop (isqrt fftSize) fftSize 4)
           (\<lambda>fs. Some \<lparr>csize = fftSize, factors = fs, twiddlesFwd = fwd, twiddlesInv = bwd\<rparr>))"


section \<open>The complex transform: butterflies and the recursive driver\<close>

text \<open>
  Buffers are lists, a pointer into a buffer is an offset. The butterflies work in
  place on the block that starts at offset \<open>output\<close>; the parameter \<^verbatim>\<open>length\<close> of the
  source is written \<open>len\<close>. The derived pointers of the source (\<^verbatim>\<open>output + i\<close>,
  \<^verbatim>\<open>twiddles + i * stride\<close>) are written as index expressions of the loop counter.
\<close>

definition butterfly2_step ::
  "nat \<Rightarrow> nat \<Rightarrow> nat \<Rightarrow> complex list \<Rightarrow> nat \<Rightarrow> complex list \<Rightarrow> complex list" where
  "butterfly2_step output stride len twiddles i buf =
     (let output2 = output + len;
          t = cmul (buf ! (output2 + i)) (twiddles ! (i * stride));
          buf1 = buf[output2 + i := buf ! (output + i) - t]
      in buf1[output + i := buf1 ! (output + i) + t])"

definition butterfly2 ::
  "complex list \<Rightarrow> nat \<Rightarrow> nat \<Rightarrow> nat \<Rightarrow> complex list \<Rightarrow> complex list" where
  "butterfly2 buf output stride len twiddles =
     fold (butterfly2_step output stride len twiddles) [0..<len] buf"

definition butterfly4_step ::
  "nat \<Rightarrow> nat \<Rightarrow> nat \<Rightarrow> complex list \<Rightarrow> bool \<Rightarrow> nat \<Rightarrow> complex list \<Rightarrow> complex list" where
  "butterfly4_step output stride len twiddles is_inverse i buf =
     (let length2 = 2 * len;
          length3 = 3 * len;
          s0 = cmul (buf ! (output + i + len)) (twiddles ! (i * stride));
          s1 = cmul (buf ! (output + i + length2)) (twiddles ! (i * (stride * 2)));
          s2 = cmul (buf ! (output + i + length3)) (twiddles ! (i * (stride * 3)));
          s3 = s0 + s2;
          s4 = s0 - s2;
          s5 = buf ! (output + i) - s1;
          buf1 = buf[output + i := buf ! (output + i) + s1];
          buf2 = buf1[output + i + length2 := buf1 ! (output + i) - s3];
          buf3 = buf2[output + i := buf2 ! (output + i) + s3]
      in if is_inverse
         then (buf3[output + i + len := Complex (Re s5 - Im s4) (Im s5 + Re s4)])
                   [output + i + length3 := Complex (Re s5 + Im s4) (Im s5 - Re s4)]
         else (buf3[output + i + len := Complex (Re s5 + Im s4) (Im s5 - Re s4)])
                   [output + i + length3 := Complex (Re s5 - Im s4) (Im s5 + Re s4)])"

definition butterfly4 ::
  "complex list \<Rightarrow> nat \<Rightarrow> nat \<Rightarrow> nat \<Rightarrow> complex list \<Rightarrow> bool \<Rightarrow> complex list" where
  "butterfly4 buf output stride len twiddles is_inverse =
     fold (butterfly4_step output stride len twiddles is_inverse) [0..<len] buf"

text \<open>
  The generic butterfly keeps the twiddle index incrementally:
  \<^verbatim>\<open>twIndex += stride * k; if (twIndex >= size) twIndex -= size;\<close>
\<close>

definition twIndex_step :: "nat \<Rightarrow> nat \<Rightarrow> nat \<Rightarrow> nat \<Rightarrow> nat" where
  "twIndex_step sz stride k twIndex =
     (let t = twIndex + stride * k in if t \<ge> sz then t - sz else t)"

text \<open>The innermost loop over \<open>q = 1, ..., radix - 1\<close>; its state is \<open>(twIndex, buffer)\<close>.\<close>

definition generic_inner_step ::
  "nat \<Rightarrow> nat \<Rightarrow> nat \<Rightarrow> complex list \<Rightarrow> complex list \<Rightarrow> nat \<Rightarrow> nat \<Rightarrow>
   nat \<times> complex list \<Rightarrow> nat \<times> complex list" where
  "generic_inner_step sz output stride twiddles scratch k q st =
     (let twIndex = twIndex_step sz stride k (fst st);
          buf = snd st
      in (twIndex, buf[output + k := buf ! (output + k) + cmul (scratch ! q) (twiddles ! twIndex)]))"

text \<open>The loop over the output positions \<open>k = u + q1 * len\<close> of one column \<open>u\<close>.\<close>

definition generic_output_step ::
  "nat \<Rightarrow> nat \<Rightarrow> nat \<Rightarrow> nat \<Rightarrow> nat \<Rightarrow> complex list \<Rightarrow> complex list \<Rightarrow> nat \<Rightarrow> nat \<Rightarrow>
   complex list \<Rightarrow> complex list" where
  "generic_output_step sz output stride rdx len twiddles scratch u q1 buf =
     (let k = u + q1 * len;
          buf1 = buf[output + k := scratch ! 0]
      in snd (fold (generic_inner_step sz output stride twiddles scratch k) [1..<rdx] (0, buf1)))"

definition generic_column ::
  "nat \<Rightarrow> nat \<Rightarrow> nat \<Rightarrow> nat \<Rightarrow> nat \<Rightarrow> complex list \<Rightarrow> nat \<Rightarrow> complex list \<Rightarrow> complex list" where
  "generic_column sz output stride rdx len twiddles u buf =
     (let scratch = map (\<lambda>q1. buf ! (output + (u + q1 * len))) [0..<rdx]
      in fold (generic_output_step sz output stride rdx len twiddles scratch u) [0..<rdx] buf)"

definition butterflyGeneric ::
  "FFTComplex \<Rightarrow> complex list \<Rightarrow> nat \<Rightarrow> nat \<Rightarrow> nat \<Rightarrow> nat \<Rightarrow> complex list \<Rightarrow> complex list" where
  "butterflyGeneric F buf output stride rdx len twiddles =
     fold (generic_column (csize F) output stride rdx len twiddles) [0..<len] buf"

text \<open>
  \<^verbatim>\<open>perform\<close>: \<open>inp\<close> is the input array and \<open>input\<close> the offset of the pointer into it,
  \<open>buf\<close> the output array and \<open>output\<close> the offset into it. The result is the output
  array after the call. The source reads one factor per level; reading past the
  recorded factors, and a factor with \<open>radix * length = 0\<close> (on which the
  \<^verbatim>\<open>do ... while (output != outEnd)\<close> loops do not stop at the end of the block), have
  no defined result: \<open>None\<close>.
\<close>

fun perform ::
  "FFTComplex \<Rightarrow> complex list \<Rightarrow> nat \<Rightarrow> complex list \<Rightarrow> nat \<Rightarrow> nat \<Rightarrow> nat \<Rightarrow>
   Factor list \<Rightarrow> bool \<Rightarrow> complex list option" where
  "perform F inp input buf output stride inStride [] is_inverse = None"
| "perform F inp input buf output stride inStride (factor # fs) is_inverse =
     (let rdx = radix factor;
          len = flength factor
      in if rdx * len = 0 then None
         else
           (case (if len = 1
                  then Some (fold (\<lambda>j b. b[output + j := inp ! (input + j * (stride * inStride))])
                               [0..<rdx] buf)
                  else fold (\<lambda>q r. Option.bind r (\<lambda>b.
                               perform F inp (input + q * (stride * inStride)) b (output + q * len)
                                 (stride * rdx) inStride fs is_inverse))
                         [0..<rdx] (Some buf)) of
              None \<Rightarrow> None
            | Some buf1 \<Rightarrow>
                (let twiddles = (if is_inverse then twiddlesInv F else twiddlesFwd F)
                 in Some (if rdx = 2 then butterfly2 buf1 output stride len twiddles
                          else if rdx = 4 then butterfly4 buf1 output stride len twiddles is_inverse
                          else butterflyGeneric F buf1 output stride rdx len twiddles))))"

declare perform.simps [simp del]

text \<open>
  \<^verbatim>\<open>reinterpret_cast\<close> between an array of \<open>2 * n\<close> samples and an array of \<open>n\<close>
  complex numbers: interleaved real and imaginary parts.
\<close>

definition as_complex :: "real list \<Rightarrow> complex list" where
  "as_complex xs = map (\<lambda>i. Complex (xs ! (2 * i)) (xs ! (2 * i + 1))) [0..<length xs div 2]"

definition as_real :: "complex list \<Rightarrow> real list" where
  "as_real cs = concat (map (\<lambda>c. [Re c, Im c]) cs)"

text \<open>
  \<^verbatim>\<open>forward\<close> and \<^verbatim>\<open>inverse\<close> get the output array from the caller and return it
  updated.
\<close>

definition FFTComplex_forward :: "FFTComplex \<Rightarrow> real list \<Rightarrow> complex list \<Rightarrow> complex list option" where
  "FFTComplex_forward F timeData freqData =
     perform F (as_complex timeData) 0 freqData 0 1 1 (factors F) False"

definition FFTComplex_inverse :: "FFTComplex \<Rightarrow> complex list \<Rightarrow> real list \<Rightarrow> real list option" where
  "FFTComplex_inverse F freqData timeData =
     map_option as_real (perform F freqData 0 (as_complex timeData) 0 1 1 (factors F) True)"


section \<open>The real transform (the FFTReal header with the \<^verbatim>\<open>inPlace\<close> flag)\<close>

record FFTReal =
  rsize :: nat
  fft :: FFTComplex
  twiddlesCplx :: "complex list"

datatype error = AssertionFailed

text \<open>
  The constructor: \<^verbatim>\<open>size (halve (fftSize))\<close>, then the complex transform of that
  size, then \<^verbatim>\<open>assert ((size & 1) == 0 && "Real FFT size must be even.")\<close>, then the
  twiddle table. Assertions are taken to be enabled.
\<close>

definition FFTReal_new :: "nat \<Rightarrow> (error + FFTReal) option" where
  "FFTReal_new fftSize =
     (let sz = halve_size fftSize
      in Option.bind (FFTComplex_new sz) (\<lambda>c.
           if sz AND 1 = 0
           then Some (Inr \<lparr>rsize = sz, fft = c,
                           twiddlesCplx = map (\<lambda>i. cexp (- pi * (real (i + 1) / real sz + 0.5))) [0..<sz]\<rparr>)
           else Some (Inl AssertionFailed)))"

definition real_forward_step :: "FFTReal \<Rightarrow> nat \<Rightarrow> complex list \<Rightarrow> complex list" where
  "real_forward_step R k freqData =
     (let s0 = freqData ! k;
          s1 = cnj (freqData ! (rsize R - k));
          fk = s0 + s1;
          fknc = s0 - s1;
          tw = cmul fknc (twiddlesCplx R ! (k - 1));
          freqData1 = freqData[k := Complex (halve (Re fk + Re tw)) (halve (Im fk + Im tw))]
      in freqData1[rsize R - k := Complex (halve (Re fk - Re tw)) (halve (Im tw - Im fk))])"

text \<open>\<^verbatim>\<open>std::memset (p + off, 0, n * sizeof (std::complex<T>))\<close>\<close>

definition memset_zero :: "complex list \<Rightarrow> nat \<Rightarrow> nat \<Rightarrow> complex list" where
  "memset_zero buf off n = fold (\<lambda>j b. b[off + j := 0]) [0..<n] buf"

definition FFTReal_forward :: "FFTReal \<Rightarrow> real list \<Rightarrow> complex list \<Rightarrow> complex list option" where
  "FFTReal_forward R timeData freqData =
     Option.bind (FFTComplex_forward (fft R) timeData freqData) (\<lambda>freqData1.
       let tdc = freqData1 ! 0;
           freqData2 = freqData1[0 := Complex (Re tdc + Im tdc) 0];
           freqData3 = freqData2[rsize R := Complex (Re tdc - Im tdc) 0];
           freqData4 = fold (real_forward_step R) [1..<rsize R div 2 + 1] freqData3
       in Some (memset_zero freqData4 (rsize R) (rsize R)))"

definition real_inverse_step :: "FFTReal \<Rightarrow> nat \<Rightarrow> complex list \<Rightarrow> complex list" where
  "real_inverse_step R k tempBuffer =
     (let s0 = tempBuffer ! k;
          s1 = cnj (tempBuffer ! (rsize R - k));
          fk = s0 + s1;
          fknc = s0 - s1;
          tw = cmul fknc (cnj (twiddlesCplx R ! (k - 1)));
          tempBuffer1 = tempBuffer[k := fk + tw]
      in tempBuffer1[rsize R - k := cnj (fk - tw)])"

text \<open>
  The buffer \<^verbatim>\<open>inverse\<close> works on: the input itself (\<^verbatim>\<open>const_cast\<close>) when \<^verbatim>\<open>inPlace\<close>,
  else a scratch array of \<^verbatim>\<open>size\<close> elements whose first element is set and whose
  other elements are copied from the input by \<^verbatim>\<open>memcpy\<close>.
\<close>

definition inverse_tempBuffer :: "FFTReal \<Rightarrow> complex list \<Rightarrow> bool \<Rightarrow> complex list" where
  "inverse_tempBuffer R freqData inPlace =
     (if \<not> inPlace
      then Complex (Re (freqData ! 0) + Re (freqData ! rsize R))
                   (Re (freqData ! 0) - Re (freqData ! rsize R))
           # map (\<lambda>j. freqData ! (1 + j)) [0..<rsize R - 1]
      else freqData)"

text \<open>
  \<^verbatim>\<open>inverse\<close> returns the input array and the output array as they are after the
  call; the two arrays of the caller are taken to be disjoint.
\<close>

definition FFTReal_inverse ::
  "FFTReal \<Rightarrow> complex list \<Rightarrow> real list \<Rightarrow> bool \<Rightarrow> (complex list \<times> real list) option" where
  "FFTReal_inverse R freqData timeData inPlace =
     (let tempBuffer = inverse_tempBuffer R freqData inPlace;
          tempBuffer1 = fold (real_inverse_step R) [1..<rsize R div 2 + 1] tempBuffer
      in Option.bind (FFTComplex_inverse (fft R) tempBuffer1 timeData) (\<lambda>timeData1.
           Some (if inPlace then tempBuffer1 else freqData, timeData1)))"


section \<open>The twiddle tables as stored: \<^verbatim>\<open>double\<close> arithmetic and the rounding of \<^verbatim>\<open>scos\<close> and \<^verbatim>\<open>ssin\<close>\<close>

text \<open>
  The constructor computes the phases in \<^verbatim>\<open>double\<close>, calls \<^verbatim>\<open>std::cos\<close> and \<^verbatim>\<open>std::sin\<close>
  on them and converts the result to the sample type. A finite \<^verbatim>\<open>double\<close> is the real
  number it denotes, and an arithmetic operation of the source is the exact operation
  followed by rounding to the nearest \<^verbatim>\<open>double\<close>, ties to the even significand (IEEE
  754 binary64: 53 bits of significand, least normal exponent \<open>- 1022\<close>, gradual
  underflow). Every operation is rounded on its own: a product is not fused with the
  sum that follows it, and intermediate results are not kept in a wider format. The
  constructor stays far below the magnitudes at which \<^verbatim>\<open>double\<close> overflows, so
  infinities and NaN are not part of the model.
\<close>

text \<open>Rounding a real to the nearest integer, ties to the even one.\<close>

definition round_even :: "real \<Rightarrow> int" where
  "round_even x =
     (let f = \<lfloor>x\<rfloor>; r = x - of_int f
      in if r < 1 / 2 then f else if 1 / 2 < r then f + 1 else if even f then f else f + 1)"

text \<open>
  Rounding to the binary format with \<open>p\<close> bits of significand and least normal
  exponent \<open>emin\<close>: the exponent of \<open>x\<close> (not below \<open>emin\<close>), the unit in the last place at
  that exponent, and \<open>x\<close> rounded to a multiple of that unit.
\<close>

definition fp_exp :: "int \<Rightarrow> real \<Rightarrow> int" where
  "fp_exp emin x = max \<lfloor>log 2 \<bar>x\<bar>\<rfloor> emin"

definition fp_ulp :: "nat \<Rightarrow> int \<Rightarrow> real \<Rightarrow> real" where
  "fp_ulp p emin x = 2 powi (fp_exp emin x - (int p - 1))"

definition round_fp :: "nat \<Rightarrow> int \<Rightarrow> real \<Rightarrow> real" where
  "round_fp p emin x =
     (if x = 0 then 0 else of_int (round_even (x / fp_ulp p emin x)) * fp_ulp p emin x)"

definition to_double :: "real \<Rightarrow> real" where
  "to_double = round_fp 53 (- 1022)"

definition to_float :: "real \<Rightarrow> real" where
  "to_float = round_fp 24 (- 126)"

text \<open>The operators \<^verbatim>\<open>+\<close>, \<^verbatim>\<open>*\<close> and \<^verbatim>\<open>/\<close> at \<^verbatim>\<open>double\<close>.\<close>

definition dadd :: "real \<Rightarrow> real \<Rightarrow> real" where
  "dadd x y = to_double (x + y)"

definition dmul :: "real \<Rightarrow> real \<Rightarrow> real" where
  "dmul x y = to_double (x * y)"

definition ddiv :: "real \<Rightarrow> real \<Rightarrow> real" where
  "ddiv x y = to_double (x / y)"

text \<open>
  \<^verbatim>\<open>std::cos\<close> and \<^verbatim>\<open>std::sin\<close> at \<^verbatim>\<open>double\<close> are functions of the C library: the source
  does not fix their values, so they are a parameter of the model.
\<close>

record libm =
  std_cos :: "real \<Rightarrow> real"
  std_sin :: "real \<Rightarrow> real"

text \<open>
  The sample types: \<^verbatim>\<open>float\<close>, \<^verbatim>\<open>double\<close> and the signed integer type of \<open>B\<close> bits, with
  \<^verbatim>\<open>fftpp_is_floating_point<T>\<close> and, for the integer types,
  \<^verbatim>\<open>std::numeric_limits<T>::max()\<close>. (A \<^verbatim>\<open>long double\<close> sample holds the \<^verbatim>\<open>double\<close> it is
  given unchanged, as a \<^verbatim>\<open>double\<close> sample does.)
\<close>

datatype sample_type = FloatT | DoubleT | SignedInt nat

fun is_floating_point :: "sample_type \<Rightarrow> bool" where
  "is_floating_point FloatT = True"
| "is_floating_point DoubleT = True"
| "is_floating_point (SignedInt B) = False"

definition signed_max :: "nat \<Rightarrow> int" where
  "signed_max B = 2 ^ (B - 1) - 1"

text \<open>
  \<^verbatim>\<open>scos<T>\<close> and \<^verbatim>\<open>ssin<T>\<close> with their \<^verbatim>\<open>double\<close> argument. For a floating-point \<open>T\<close> the
  library value is returned, converted to \<open>T\<close>. For an integer \<open>T\<close> the value is
  \<^verbatim>\<open>std::floor (0.5 + std::numeric_limits<T>::max() * std::cos (phase))\<close>, computed in
  \<^verbatim>\<open>double\<close> (the maximum is converted to \<^verbatim>\<open>double\<close> first) and converted to \<open>T\<close>; it is an
  integer, and within the range of \<open>T\<close> when the library value is at most 1 in
  magnitude and \<open>T\<close> has at most 53 bits. The result is given as the real number that
  the stored sample denotes, and a \<^verbatim>\<open>std::complex<T>\<close> as a complex number.
\<close>

definition scos_T :: "libm \<Rightarrow> sample_type \<Rightarrow> real \<Rightarrow> real" where
  "scos_T L T phase =
     (case T of
        FloatT \<Rightarrow> to_float (std_cos L phase)
      | DoubleT \<Rightarrow> std_cos L phase
      | SignedInt B \<Rightarrow>
          of_int \<lfloor>dadd 0.5 (dmul (to_double (of_int (signed_max B))) (std_cos L phase))\<rfloor>)"

definition ssin_T :: "libm \<Rightarrow> sample_type \<Rightarrow> real \<Rightarrow> real" where
  "ssin_T L T phase =
     (case T of
        FloatT \<Rightarrow> to_float (std_sin L phase)
      | DoubleT \<Rightarrow> std_sin L phase
      | SignedInt B \<Rightarrow>
          of_int \<lfloor>dadd 0.5 (dmul (to_double (of_int (signed_max B))) (std_sin L phase))\<rfloor>)"

definition cexp_T :: "libm \<Rightarrow> sample_type \<Rightarrow> real \<Rightarrow> complex" where
  "cexp_T L T phase = Complex (scos_T L T phase) (ssin_T L T phase)"

text \<open>
  \<^verbatim>\<open>const double pi = 3.141592653589793238L\<close>, \<^verbatim>\<open>const double factor = -2 * pi / size\<close>
  and the two phases \<^verbatim>\<open>factor * i\<close> and \<^verbatim>\<open>factor * i * -1\<close> of the loop that fills the
  tables; the \<^verbatim>\<open>size_t\<close> \<^verbatim>\<open>size\<close> and the \<^verbatim>\<open>int\<close> \<^verbatim>\<open>i\<close> are converted to \<^verbatim>\<open>double\<close>.
\<close>

definition pi_double :: real where
  "pi_double = to_double 3.141592653589793238"

definition twiddle_factor :: "nat \<Rightarrow> real" where
  "twiddle_factor sz = ddiv (dmul (- 2) pi_double) (to_double (real sz))"

definition twiddle_phase :: "nat \<Rightarrow> nat \<Rightarrow> real" where
  "twiddle_phase sz i = dmul (twiddle_factor sz) (to_double (real i))"

definition make_twiddles_T :: "libm \<Rightarrow> sample_type \<Rightarrow> nat \<Rightarrow> complex list \<times> complex list" where
  "make_twiddles_T L T sz =
     (map (\<lambda>i. cexp_T L T (twiddle_phase sz i)) [0..<sz],
      map (\<lambda>i. cexp_T L T (dmul (twiddle_phase sz i) (- 1))) [0..<sz])"


section \<open>Notions used to state the properties\<close>

text \<open>Rounding to nearest with ties away from zero, at \<open>f\<close> fractional bits.\<close>

definition round_half_away :: "int \<Rightarrow> nat \<Rightarrow> int" where
  "round_half_away p f = sgn p * ((\<bar>p\<bar> + 2 ^ (f - 1)) div 2 ^ f)"

text \<open>
  The product of two samples of bit-width \<open>B\<close> as the specification words it: the
  exact product scaled by \<open>2 ^ (B - 1)\<close>, rounded to nearest with ties away from zero,
  narrowed back.
\<close>

definition smul_spec :: "'a::len word \<Rightarrow> 'a word \<Rightarrow> 'a word" where
  "smul_spec a b = word_of_int (round_half_away (sint a * sint b) (LENGTH('a) - 1))"

definition is_prime :: "nat \<Rightarrow> bool" where
  "is_prime p \<longleftrightarrow> 1 < p \<and> (\<forall>m \<in> {2..<p}. \<not> m dvd p)"

text \<open>
  A factor list for a transform of length \<open>n\<close> as \<^verbatim>\<open>perform\<close> reads it: the first factor
  splits \<open>n\<close> into radix times remaining length, the remaining factors do the same for
  the remaining length, and the list ends with the factor of remaining length 1.
\<close>

fun wf_factors :: "nat \<Rightarrow> Factor list \<Rightarrow> bool" where
  "wf_factors n [] = False"
| "wf_factors n (f # fs) =
     (radix f * flength f = n \<and> 0 < n \<and>
      (if flength f = 1 then fs = [] else wf_factors (flength f) fs))"

text \<open>The order in which radices are tried: 4, then 2 (once), then odd numbers ascending.\<close>

definition radix_before :: "nat \<Rightarrow> nat \<Rightarrow> bool" where
  "radix_before a b \<longleftrightarrow>
     a = 4 \<or> (a = 2 \<and> b \<noteq> 4 \<and> b \<noteq> 2) \<or> (a \<noteq> 2 \<and> b \<noteq> 4 \<and> b \<noteq> 2 \<and> a \<le> b)"

text \<open>The unnormalised discrete Fourier transform, and the same sum with the other sign.\<close>

definition dft_sum :: "real \<Rightarrow> complex list \<Rightarrow> nat \<Rightarrow> complex" where
  "dft_sum sg x k =
     (\<Sum>n<length x. x ! n * cis (sg * 2 * pi * real k * real n / real (length x)))"

definition dft :: "complex list \<Rightarrow> nat \<Rightarrow> complex" where
  "dft x k = dft_sum (- 1) x k"

text \<open>
  The transform of the sub-signal \<open>inp[input], inp[input + step], ...\<close> of length \<open>L\<close>,
  the contract of \<^verbatim>\<open>perform\<close>.
\<close>

definition sub_dft :: "real \<Rightarrow> complex list \<Rightarrow> nat \<Rightarrow> nat \<Rightarrow> nat \<Rightarrow> nat \<Rightarrow> complex" where
  "sub_dft sg inp input step L k =
     (\<Sum>n<L. inp ! (input + n * step) * cis (sg * 2 * pi * real k * real n / real L))"

definition tw_sign :: "bool \<Rightarrow> real" where
  "tw_sign is_inverse = (if is_inverse then 1 else - 1)"

text \<open>The value of \<^verbatim>\<open>twIndex\<close> after \<open>q\<close> rounds of the innermost loop of the generic butterfly.\<close>

definition twIndex_at :: "nat \<Rightarrow> nat \<Rightarrow> nat \<Rightarrow> nat \<Rightarrow> nat" where
  "twIndex_at sz stride k q = (twIndex_step sz stride k ^^ q) 0"


text \<open>
  The inverse real transform as the specification words it: scratch \<open>Y\<close> built from
  the \<open>N + 1\<close> input bins, the Hermitian pass with the conjugate twiddles, the complex
  inverse transform.
\<close>

definition spec_scratch :: "nat \<Rightarrow> complex list \<Rightarrow> complex list" where
  "spec_scratch N inp =
     Complex (Re (inp ! 0) + Re (inp ! N)) (Re (inp ! 0) - Re (inp ! N)) # take (N - 1) (drop 1 inp)"

definition spec_hermitian_step :: "nat \<Rightarrow> complex list \<Rightarrow> nat \<Rightarrow> complex list \<Rightarrow> complex list" where
  "spec_hermitian_step N W k Y =
     (let F = Y ! k + cnj (Y ! (N - k));
          G = Y ! k - cnj (Y ! (N - k));
          T = G * cnj (W ! (k - 1))
      in (Y[k := F + T])[N - k := cnj (F - T)])"

definition spec_real_inverse :: "FFTReal \<Rightarrow> complex list \<Rightarrow> real list \<Rightarrow> real list option" where
  "spec_real_inverse R inp timeData =
     (let N = rsize R;
          Y = spec_scratch N inp;
          Y1 = fold (spec_hermitian_step N (twiddlesCplx R)) [1..<N div 2 + 1] Y
      in FFTComplex_inverse (fft R) Y1 timeData)"

text \<open>
  Invariants of the factor search. Before a candidate \<open>p\<close> is tried on the residual
  \<open>n\<close>: either nothing has been excluded yet, or 4 has been excluded, or every prime
  below the odd candidate has been. When a radix \<open>p\<close> is selected for \<open>n\<close>: it divides
  \<open>n\<close> and is 4, or 2 with 4 excluded, or the least prime factor of \<open>n\<close>.
\<close>

definition cand_inv :: "nat \<Rightarrow> nat \<Rightarrow> bool" where
  "cand_inv p n \<longleftrightarrow>
     p = 4 \<or> (p = 2 \<and> \<not> 4 dvd n) \<or>
     (odd p \<and> 3 \<le> p \<and> (\<forall>q. is_prime q \<and> q dvd n \<longrightarrow> p \<le> q))"

definition sel_inv :: "nat \<Rightarrow> nat \<Rightarrow> bool" where
  "sel_inv p n \<longleftrightarrow>
     p dvd n \<and>
     (p = 4 \<or> (p = 2 \<and> \<not> 4 dvd n) \<or>
      (odd p \<and> is_prime p \<and> (\<forall>q. is_prime q \<and> q dvd n \<longrightarrow> p \<le> q)))"

definition from_cand :: "nat \<Rightarrow> nat \<Rightarrow> bool" where
  "from_cand p r \<longleftrightarrow>
     p = 4 \<or> (p = 2 \<and> r \<noteq> 4) \<or> (odd p \<and> r \<noteq> 4 \<and> r \<noteq> 2 \<and> p \<le> r)"

text \<open>The root of unity \<open>exp (sg * 2 * pi * i * a / L)\<close>; the sign \<open>sg\<close> is \<open>- 1\<close> forward, \<open>1\<close> inverse.\<close>

definition theta :: "real \<Rightarrow> nat \<Rightarrow> nat \<Rightarrow> complex" where
  "theta sg L a = cis (sg * 2 * pi * real a / real L)"

text \<open>Constructing the real transform of size \<open>M\<close> and calling it, for statements at concrete sizes.\<close>

definition real_forward_at :: "nat \<Rightarrow> real list \<Rightarrow> complex list \<Rightarrow> complex list option" where
  "real_forward_at M timeData freqData =
     (case FFTReal_new M of
        Some (Inr R) \<Rightarrow> FFTReal_forward R timeData freqData
      | _ \<Rightarrow> None)"

definition real_inverse_at ::
  "nat \<Rightarrow> complex list \<Rightarrow> real list \<Rightarrow> bool \<Rightarrow> (complex list \<times> real list) option" where
  "real_inverse_at M freqData timeData inPlace =
     (case FFTReal_new M of
        Some (Inr R) \<Rightarrow> FFTReal_inverse R freqData timeData inPlace
      | _ \<Rightarrow> None)"

definition spec_real_inverse_at :: "nat \<Rightarrow> complex list \<Rightarrow> real list \<Rightarrow> real list option" where
  "spec_real_inverse_at M inp timeData =
     (case FFTReal_new M of
        Some (Inr R) \<Rightarrow> spec_real_inverse R inp timeData
      | _ \<Rightarrow> None)"

text \<open>
  What the statement about the stored twiddle tables asks of the C library: the cosine
  is even, the sine is odd and at most 1 in magnitude.
\<close>

definition libm_symmetric :: "libm \<Rightarrow> bool" where
  "libm_symmetric L \<longleftrightarrow>
     (\<forall>p. std_cos L (- p) = std_cos L p) \<and> (\<forall>p. std_sin L (- p) = - std_sin L p) \<and>
     (\<forall>p. \<bar>std_sin L p\<bar> \<le> 1)"

text \<open>
  The \<^verbatim>\<open>double\<close> values \<open>y\<close> at which \<^verbatim>\<open>std::floor (0.5 + y)\<close> and \<^verbatim>\<open>std::floor (0.5 - y)\<close> do
  not add up to zero: \<open>y + 1 / 2\<close> is an integer, or \<open>\<bar>y\<bar>\<close> is the largest \<^verbatim>\<open>double\<close> below
  \<open>1 / 2\<close>, for which the sum \<^verbatim>\<open>0.5 + y\<close> rounds up to 1.
\<close>

definition half_pred :: real where
  "half_pred = (2 ^ 53 - 1) / 2 ^ 54"

definition floor_tie :: "real \<Rightarrow> bool" where
  "floor_tie y \<longleftrightarrow> y + 1 / 2 \<in> \<int> \<or> \<bar>y\<bar> = half_pred"

text \<open>A C library whose cosine and sine are correctly rounded, for statements at concrete sizes.\<close>

definition libm_cr :: libm where
  "libm_cr = \<lparr>std_cos = \<lambda>p. to_double (cos p), std_sin = \<lambda>p. to_double (sin p)\<rparr>"


section \<open>Properties\<close>

subsection \<open>The fixed-point product\<close>

lemma abs_prod_bound:
  fixes x y :: int
  assumes "- (2^31) \<le> x" "x < 2^31" "- (2^31) \<le> y" "y < 2^31"
  shows "\<bar>x * y\<bar> \<le> 2^62"
proof -
  have "\<bar>x\<bar> \<le> 2^31" "\<bar>y\<bar> \<le> 2^31" using assms by auto
  then have "\<bar>x\<bar> * \<bar>y\<bar> \<le> 2^31 * 2^31"
    by (intro mult_mono) auto
  then show ?thesis by (simp add: abs_mult)
qed

lemma sint_prod_bound:
  fixes a b :: "32 word"
  shows "\<bar>sint a * sint b\<bar> \<le> 2^62"
  using abs_prod_bound [of "sint a" "sint b"]
    sint_ge [of a] sint_lt [of a] sint_ge [of b] sint_lt [of b]
  by simp

lemma sint_prod64:
  fixes a b :: "32 word"
  shows "sint (scast a * scast b :: 64 word) = sint a * sint b"
proof -
  from sint_prod_bound [of a b]
  have "- (2^63) \<le> sint a * sint b" "sint a * sint b < 2^63"
    by auto
  then show ?thesis
    by (simp add: sint_word_mult sint_up_scast is_up signed_take_bit_int_eq_self)
qed

lemma sint_sround_prod:
  fixes a b :: "32 word"
  shows "sint (sround (scast a * scast b)) = (sint a * sint b + 2^30) div 2^31"
proof -
  have one: "sint (push_bit 30 1 :: 64 word) = 2^30" by simp
  from sint_prod_bound [of a b]
  have "- (2^63) \<le> sint a * sint b + 2^30" "sint a * sint b + 2^30 < 2^63"
    by auto
  then have "sint ((scast a * scast b :: 64 word) + push_bit 30 1) = sint a * sint b + 2^30"
    unfolding sint_word_add sint_prod64 one
    by (simp add: signed_take_bit_int_eq_self)
  then show ?thesis
    by (simp add: sround_def FRACBITS_def sint_signed_drop_bit_eq drop_bit_eq_div)
qed

lemma ucast_down_sint:
  fixes w :: "64 word"
  shows "(ucast w :: 32 word) = word_of_int (sint w)"
  by (rule bit_word_eqI) (auto simp add: bit_simps bit_sint_iff)

lemma round_shift_floor:
  "((p::int) + 2 ^ 30) div 2 ^ 31 = \<lfloor>real_of_int p / 2 ^ 31 + 1 / 2\<rfloor>"
proof -
  have "real_of_int p / 2 ^ 31 + 1 / 2 = real_of_int (p + 2 ^ 30) / real_of_int (2 ^ 31)"
    by (simp add: field_simps)
  then show ?thesis
    by (simp only: floor_divide_of_int_eq)
qed

text \<open>
  The 16-bit product is shifted by 31 as well, not by 15: a half times a half in Q15
  comes out as 0 where the scaled product is 8192.
\<close>

lemma smul_int_16bit_example:
  "smul_int (16384 :: 16 word) 16384 = 0 \<and> smul_spec (16384 :: 16 word) 16384 = 8192"
  by (simp add: smul_int_def sround_def FRACBITS_def smul_spec_def round_half_away_def)

text \<open>
  Claim C6 as stated fails: for the 32-bit sample type and the operands \<open>- 2 ^ 15\<close> and
  \<open>2 ^ 15\<close> the exact scaled product is \<open>- 1 / 2\<close>, a tie; ties away from zero give \<open>- 1\<close>,
  the code gives 0.
\<close>

theorem smul_tie_counterexample:
  "smul_int (- 32768 :: 32 word) 32768 \<noteq> smul_spec (- 32768) 32768"
  by (simp add: smul_int_def sround_def FRACBITS_def smul_spec_def round_half_away_def)

text \<open>
  Claim C6, amended: for the 32-bit signed sample type and all operands \<open>a\<close>, \<open>b\<close>,
  \<^verbatim>\<open>smul\<close> is the 64-bit product plus the bias \<open>2 ^ 30\<close>, shifted right arithmetically by
  31 and narrowed to 32 bits; that is the product scaled by \<open>2 ^ 31\<close> and rounded to
  nearest with ties towards plus infinity.
\<close>

theorem smul_int_32bit:
  fixes a b :: "32 word"
  shows "smul_int a b = word_of_int ((sint a * sint b + 2 ^ 30) div 2 ^ 31) \<and>
         (sint a * sint b + 2 ^ 30) div 2 ^ 31 = \<lfloor>real_of_int (sint a * sint b) / 2 ^ 31 + 1 / 2\<rfloor>"
proof
  show "smul_int a b = word_of_int ((sint a * sint b + 2 ^ 30) div 2 ^ 31)"
    by (simp add: smul_int_def ucast_down_sint sint_sround_prod)
  show "(sint a * sint b + 2 ^ 30) div 2 ^ 31 = \<lfloor>real_of_int (sint a * sint b) / 2 ^ 31 + 1 / 2\<rfloor>"
    by (rule round_shift_floor)
qed

subsection \<open>The size check of the real transform\<close>

lemma factor_loop_2: "factor_loop (isqrt 2) 2 4 = Some [\<lparr>radix = 2, flength = 1\<rparr>]"
  by code_simp

text \<open>
  The assertion passes exactly when the halved size is even, which an odd size of the
  form \<open>4 * j + 1\<close> satisfies as well.
\<close>

lemma FFTReal_new_check:
  "FFTComplex_new (M div 2) = Some c \<Longrightarrow>
   (\<exists>R. FFTReal_new M = Some (Inr R)) \<longleftrightarrow> M mod 4 \<in> {0, 1}"
  apply (simp add: FFTReal_new_def halve_size_def drop_bit_eq_div and_one_eq Let_def)
  apply presburger
  done

text \<open>
  Claim C5 at the size 5: the size is odd, and the constructor accepts it, with the
  complex transform of size 2.
\<close>

theorem FFTReal_new_5_accepted:
  "map_option (map_sum id rsize) (FFTReal_new 5) = Some (Inr 2)"
  by (simp add: FFTReal_new_def halve_size_def FFTComplex_new_def factor_loop_2 drop_bit_eq_div
        split: prod.split)

subsection \<open>The factor list\<close>

lemma is_prime_iff: "is_prime p \<longleftrightarrow> 1 < p \<and> (\<forall>m. m dvd p \<longrightarrow> m = 1 \<or> m = p)"
proof
  assume p: "is_prime p"
  then have p1: "1 < p" and nd: "\<And>m. 2 \<le> m \<Longrightarrow> m < p \<Longrightarrow> \<not> m dvd p"
    by (auto simp: is_prime_def)
  have "m = 1 \<or> m = p" if "m dvd p" for m
  proof -
    from that p1 have "m \<le> p" "m \<noteq> 0" by (auto dest: dvd_imp_le intro: Nat.gr0I)
    with nd [of m] that show ?thesis by (cases "m = 1"; cases "m = p") auto
  qed
  with p1 show "1 < p \<and> (\<forall>m. m dvd p \<longrightarrow> m = 1 \<or> m = p)" by blast
next
  assume "1 < p \<and> (\<forall>m. m dvd p \<longrightarrow> m = 1 \<or> m = p)"
  then show "is_prime p" by (auto simp: is_prime_def)
qed

lemma prime_factor_exists: "2 \<le> n \<Longrightarrow> \<exists>q. is_prime q \<and> q dvd n"
proof (induction n rule: less_induct)
  case (less n)
  show ?case
  proof (cases "is_prime n")
    case True
    then show ?thesis by (intro exI [of _ n]) simp
  next
    case False
    with less.prems obtain m where m: "m dvd n" "m \<noteq> 1" "m \<noteq> n"
      by (auto simp: is_prime_iff)
    with less.prems have "m \<le> n" "m \<noteq> 0" by (auto dest: dvd_imp_le intro: Nat.gr0I)
    with m have "2 \<le> m" "m < n" by auto
    from less.IH [OF this(2) this(1)] obtain q where "is_prime q" "q dvd m" by blast
    with m(1) show ?thesis by (blast intro: dvd_trans)
  qed
qed

lemma is_prime_dvd_mult:
  assumes "is_prime q" "q dvd a * b"
  shows "q dvd a \<or> q dvd b"
proof (cases "q dvd a")
  case True
  then show ?thesis ..
next
  case False
  have "gcd q a dvd q" by simp
  with assms(1) have "gcd q a = 1 \<or> gcd q a = q" by (simp add: is_prime_iff)
  moreover have "gcd q a \<noteq> q" using False by (metis gcd_dvd2)
  ultimately have "coprime q a" by (simp add: coprime_iff_gcd_eq_1)
  with assms(2) have "q dvd b" by (simp add: coprime_dvd_mult_right_iff)
  then show ?thesis ..
qed

lemma is_prime_dvd_prod_list:
  "is_prime q \<Longrightarrow> q dvd prod_list rs \<Longrightarrow> \<exists>r \<in> set rs. q dvd r"
proof (induction rs)
  case Nil
  then show ?case by (simp add: is_prime_iff)
next
  case (Cons r rs)
  then show ?case using is_prime_dvd_mult [of q r "prod_list rs"] by auto
qed

lemma dvd_prod_list_member: "r \<in> set rs \<Longrightarrow> (r::nat) dvd prod_list rs"
  by (induction rs) auto

lemma composite_has_small_factor:
  assumes "2 \<le> n" "\<not> is_prime n"
  shows "\<exists>a b. n = a * b \<and> 2 \<le> a \<and> 2 \<le> b"
proof -
  from assms obtain m where m: "m dvd n" "m \<noteq> 1" "m \<noteq> n"
    by (auto simp: is_prime_iff)
  then obtain k where k: "n = m * k" by (auto elim: dvdE)
  with assms(1) m have "m \<noteq> 0" "k \<noteq> 0" "k \<noteq> 1" by (auto intro: Nat.gr0I)
  with m k have "2 \<le> m" "2 \<le> k" by auto
  with k show ?thesis by blast
qed

lemma isqrt_search_le: "isqrt_search n k * isqrt_search n k \<le> n"
  by (induction k) auto

lemma isqrt_search_max: "isqrt_search n k < j \<Longrightarrow> j \<le> k \<Longrightarrow> n < j * j"
proof (induction k)
  case 0
  then show ?case by simp
next
  case (Suc k)
  then show ?case by (cases "j = Suc k") (auto split: if_splits)
qed

lemma isqrt_search_bound: "isqrt_search n k \<le> k"
  by (induction k) auto

lemma isqrt_lower: "isqrt n * isqrt n \<le> n"
  by (simp add: isqrt_def isqrt_search_le)

lemma isqrt_upper: "n < (isqrt n + 1) * (isqrt n + 1)"
proof (cases "isqrt n + 1 \<le> n")
  case True
  then show ?thesis
    using isqrt_search_max [of n n "isqrt n + 1"] by (simp add: isqrt_def)
next
  case False
  then have "n < isqrt n + 1" by simp
  also have "isqrt n + 1 \<le> (isqrt n + 1) * (isqrt n + 1)" by simp
  finally show ?thesis .
qed

text \<open>The search computes the truncated square root that the source takes.\<close>

lemma isqrt_floor_sqrt: "isqrt n = nat \<lfloor>sqrt (real n)\<rfloor>"
proof -
  have "real (isqrt n * isqrt n) \<le> real n"
    using isqrt_lower [of n] by (simp only: of_nat_le_iff)
  then have "(real (isqrt n))\<^sup>2 \<le> real n"
    by (simp add: power2_eq_square)
  then have l: "real (isqrt n) \<le> sqrt (real n)"
    by (rule real_le_rsqrt)
  have "real n < real ((isqrt n + 1) * (isqrt n + 1))"
    using isqrt_upper [of n] by (simp only: of_nat_less_iff)
  then have "real n < (real (isqrt n) + 1)\<^sup>2"
    by (simp add: power2_eq_square algebra_simps)
  then have u: "sqrt (real n) < real (isqrt n) + 1"
    by (intro real_less_lsqrt) auto
  from l u have "\<lfloor>sqrt (real n)\<rfloor> = int (isqrt n)"
    by (intro floor_unique) auto
  then show ?thesis by simp
qed

lemma find_radix_stop: "fftSize mod p = 0 \<Longrightarrow> find_radix rt fftSize p = p"
  by (subst find_radix.simps) simp

lemma find_radix_step:
  "fftSize mod p \<noteq> 0 \<Longrightarrow>
   find_radix rt fftSize p =
   find_radix rt fftSize (if next_candidate p > rt then fftSize else next_candidate p)"
  by (subst find_radix.simps) (simp add: Let_def)

lemma is_prime_2: "is_prime 2"
  by (simp add: is_prime_def)

lemma is_prime_3: "is_prime 3"
proof -
  have "\<not> m dvd 3" if "m \<in> {2..<3}" for m :: nat
  proof -
    from that have "m = 2" by auto
    then show ?thesis by simp
  qed
  then show ?thesis by (simp add: is_prime_def)
qed

lemma is_prime_ge2: "is_prime q \<Longrightarrow> 2 \<le> q"
  by (simp add: is_prime_def)

lemma is_prime_even: "is_prime q \<Longrightarrow> even q \<Longrightarrow> q = 2"
  by (auto simp: is_prime_iff)

lemma cand_step:
  assumes "cand_inv p n" "n mod p \<noteq> 0"
  shows "cand_inv (next_candidate p) n"
proof -
  consider "p = 4" | "p = 2" "\<not> 4 dvd n"
    | "odd p" "3 \<le> p" "\<forall>q. is_prime q \<and> q dvd n \<longrightarrow> p \<le> q"
    using assms(1) by (auto simp: cand_inv_def)
  then show ?thesis
  proof cases
    case 1
    with assms(2) show ?thesis
      by (simp add: cand_inv_def next_candidate_def mod_eq_0_iff_dvd)
  next
    case 2
    have "3 \<le> q" if "is_prime q" "q dvd n" for q
    proof -
      from assms(2) 2 have "odd n" by (simp add: mod_eq_0_iff_dvd)
      with that(2) have "odd q" by (auto elim: dvdE)
      with is_prime_ge2 [OF that(1)] show ?thesis by (cases "q = 2") auto
    qed
    with 2 show ?thesis
      by (simp add: cand_inv_def next_candidate_def)
  next
    case 3
    have "p + 2 \<le> q" if "is_prime q" "q dvd n" for q
    proof -
      from 3 that have le: "p \<le> q" by blast
      from that(2) assms(2) have "q \<noteq> p" by (auto simp: mod_eq_0_iff_dvd)
      moreover have "q \<noteq> p + 1"
      proof
        assume "q = p + 1"
        with 3(1) have "even q" by simp
        with is_prime_even [OF that(1)] 3(2) \<open>q = p + 1\<close> show False by simp
      qed
      ultimately show ?thesis using le by simp
    qed
    with 3 show ?thesis
      by (auto simp: cand_inv_def next_candidate_def)
  qed
qed

lemma next_candidate_ne4: "next_candidate p \<noteq> 4"
  by (simp add: next_candidate_def)

lemma cand_base:
  assumes "cand_inv p n" "n mod p = 0" "1 \<le> n"
  shows "sel_inv p n"
proof -
  from assms(2) have dvd: "p dvd n" by (simp add: mod_eq_0_iff_dvd)
  consider "p = 4" | "p = 2" "\<not> 4 dvd n"
    | "odd p" "3 \<le> p" "\<forall>q. is_prime q \<and> q dvd n \<longrightarrow> p \<le> q"
    using assms(1) by (auto simp: cand_inv_def)
  then show ?thesis
  proof cases
    case 1
    with dvd show ?thesis by (simp add: sel_inv_def)
  next
    case 2
    with dvd show ?thesis by (simp add: sel_inv_def)
  next
    case 3
    have "is_prime p"
    proof (rule ccontr)
      assume np: "\<not> is_prime p"
      from 3(2) have "2 \<le> p" by simp
      from composite_has_small_factor [OF this np] obtain a b where
        ab: "p = a * b" "2 \<le> a" "2 \<le> b" by blast
      from prime_factor_exists [OF ab(2)] obtain q where q: "is_prime q" "q dvd a" by blast
      from q(2) ab(1) dvd have "q dvd n" by (metis dvd_mult2 dvd_trans)
      with 3(3) q(1) have "p \<le> q" by blast
      moreover from q(2) ab(2) have "q \<le> a" by (auto dest: dvd_imp_le)
      moreover from ab have "a < p" by simp
      ultimately show False by simp
    qed
    with 3 dvd show ?thesis by (simp add: sel_inv_def)
  qed
qed

lemma cand_residual:
  assumes c: "cand_inv p1 n" and p1: "p1 > rt" "p1 \<noteq> 4" and n: "n < (rt + 1) * (rt + 1)" "2 \<le> n"
  shows "sel_inv n n"
proof -
  consider "p1 = 2" "\<not> 4 dvd n"
    | "odd p1" "3 \<le> p1" "\<forall>q. is_prime q \<and> q dvd n \<longrightarrow> p1 \<le> q"
    using c p1(2) by (auto simp: cand_inv_def)
  then show ?thesis
  proof cases
    case 1
    with p1 have "rt + 1 \<le> 2" by simp
    then have "(rt + 1) * (rt + 1) \<le> 2 * 2" by (intro mult_mono) auto
    with n(1) have "n < 4" by (simp only: less_le_trans numeral_times_numeral semiring_norm)
    with n(2) have "n = 2 \<or> n = 3" by arith
    then show ?thesis
    proof
      assume "n = 2"
      then show ?thesis by (simp add: sel_inv_def)
    next
      assume n3: "n = 3"
      have "3 \<le> q" if "is_prime q" "q dvd 3" for q
      proof -
        from that(2) have "odd q" using dvd_trans [of 2 q 3] by auto
        with is_prime_ge2 [OF that(1)] show ?thesis by (cases "q = 2") auto
      qed
      with n3 is_prime_3 show ?thesis by (simp add: sel_inv_def)
    qed
  next
    case 2
    have big: "n < p1 * p1"
    proof -
      from p1(1) have "rt + 1 \<le> p1" by simp
      then have "(rt + 1) * (rt + 1) \<le> p1 * p1" by (intro mult_mono) auto
      with n(1) show ?thesis by simp
    qed
    have pr: "is_prime n"
    proof (rule ccontr)
      assume np: "\<not> is_prime n"
      from composite_has_small_factor [OF n(2) np] obtain a b where
        ab: "n = a * b" "2 \<le> a" "2 \<le> b" by blast
      from prime_factor_exists [OF ab(2)] obtain q where q: "is_prime q" "q dvd a" by blast
      from prime_factor_exists [OF ab(3)] obtain q' where q': "is_prime q'" "q' dvd b" by blast
      from q(2) ab(1) have "q dvd n" by simp
      with 2(3) q(1) have "p1 \<le> q" by blast
      moreover from q(2) ab(2) have "q \<le> a" by (auto dest: dvd_imp_le)
      ultimately have a: "p1 \<le> a" by simp
      from q'(2) ab(1) have "q' dvd n" by simp
      with 2(3) q'(1) have "p1 \<le> q'" by blast
      moreover from q'(2) ab(3) have "q' \<le> b" by (auto dest: dvd_imp_le)
      ultimately have b: "p1 \<le> b" by simp
      from a b have "p1 * p1 \<le> a * b" by (rule mult_le_mono)
      with big ab(1) show False by simp
    qed
    have on: "odd n"
    proof
      assume "even n"
      with 2(3) is_prime_2 have "p1 \<le> 2" by blast
      with 2(2) show False by simp
    qed
    have "n \<le> q" if "is_prime q" "q dvd n" for q
    proof -
      from pr that(2) have "q = 1 \<or> q = n" unfolding is_prime_iff by blast
      with is_prime_ge2 [OF that(1)] show ?thesis by auto
    qed
    with pr on show ?thesis by (simp add: sel_inv_def)
  qed
qed

lemma find_radix_sel:
  "cand_inv p n \<Longrightarrow> 2 \<le> n \<Longrightarrow> n < (rt + 1) * (rt + 1) \<Longrightarrow> sel_inv (find_radix rt n p) n"
proof (induction rt n p rule: find_radix.induct)
  case (1 rt n p)
  show ?case
  proof (cases "n mod p = 0")
    case True
    with cand_base [OF "1.prems"(1) True] "1.prems"(2) show ?thesis
      by (simp add: find_radix_stop)
  next
    case False
    define p1 where "p1 = next_candidate p"
    have c1: "cand_inv p1 n" unfolding p1_def by (rule cand_step [OF "1.prems"(1) False])
    show ?thesis
    proof (cases "p1 > rt")
      case True
      with False have "find_radix rt n p = n"
        by (simp add: find_radix_step p1_def find_radix_stop)
      with cand_residual [OF c1 True _ "1.prems"(3) "1.prems"(2)] next_candidate_ne4 [of p]
      show ?thesis by (simp add: p1_def)
    next
      case nb: False
      with False have e: "find_radix rt n p = find_radix rt n p1"
        by (simp add: find_radix_step p1_def)
      from "1.IH" [OF False refl refl] c1 nb "1.prems"(2,3)
      show ?thesis unfolding e by (simp add: p1_def)
    qed
  qed
qed

lemma sel_next:
  assumes "sel_inv p' n" "1 \<le> n"
  shows "cand_inv p' (n div p')"
proof -
  from assms(1) have dvd: "p' dvd n" by (simp add: sel_inv_def)
  consider "p' = 4" | "p' = 2" "\<not> 4 dvd n"
    | "odd p'" "is_prime p'" "\<forall>q. is_prime q \<and> q dvd n \<longrightarrow> p' \<le> q"
    using assms(1) by (auto simp: sel_inv_def)
  then show ?thesis
  proof cases
    case 1
    then show ?thesis by (simp add: cand_inv_def)
  next
    case 2
    have "\<not> 4 dvd n div 2"
    proof
      assume "4 dvd n div 2"
      then have "2 * 4 dvd 2 * (n div 2)" by (simp only: mult_dvd_mono dvd_refl)
      with dvd 2(1) have "8 dvd n" by simp
      then have "4 dvd n" using dvd_trans [of 4 8 n] by simp
      with 2(2) show False ..
    qed
    with 2 show ?thesis by (simp add: cand_inv_def)
  next
    case 3
    have "p' \<le> q" if "is_prime q" "q dvd n div p'" for q
    proof -
      from that(2) dvd have "q dvd n" by (metis dvd_div_mult_self dvd_mult2)
      with 3(3) that(1) show ?thesis by blast
    qed
    moreover from 3 is_prime_ge2 [OF 3(2)] have "3 \<le> p'" by (cases "p' = 2") auto
    ultimately show ?thesis using 3 by (simp add: cand_inv_def)
  qed
qed

lemma sel_from_cand:
  assumes "cand_inv p n" "sel_inv p' n"
  shows "from_cand p p'"
proof -
  from assms(2) have dvd: "p' dvd n" by (simp add: sel_inv_def)
  consider "p = 4" | "p = 2" "\<not> 4 dvd n"
    | "odd p" "3 \<le> p" "\<forall>q. is_prime q \<and> q dvd n \<longrightarrow> p \<le> q"
    using assms(1) by (auto simp: cand_inv_def)
  then show ?thesis
  proof cases
    case 1
    then show ?thesis by (simp add: from_cand_def)
  next
    case 2
    with dvd show ?thesis by (auto simp: from_cand_def)
  next
    case 3
    have two: "\<not> 2 dvd n"
    proof
      assume "2 dvd n"
      with 3(3) is_prime_2 have "p \<le> 2" by blast
      with 3(2) show False by simp
    qed
    then have ne: "p' \<noteq> 2" "p' \<noteq> 4" using dvd dvd_trans [of 2 4 n] by auto
    with assms(2) have "is_prime p'" by (simp add: sel_inv_def)
    with 3(3) dvd have "p \<le> p'" by blast
    with 3 ne show ?thesis by (simp add: from_cand_def)
  qed
qed

lemma from_cand_trans:
  "from_cand p p' \<Longrightarrow> from_cand p' r \<Longrightarrow> p' = 4 \<or> p' = 2 \<or> odd p' \<Longrightarrow> from_cand p r"
  by (auto simp: from_cand_def)

lemma sel_inv_radix: "sel_inv p n \<Longrightarrow> p = 4 \<or> is_prime p"
  by (auto simp: sel_inv_def is_prime_2)

lemma sel_inv_shape: "sel_inv p n \<Longrightarrow> p = 4 \<or> p = 2 \<or> odd p"
  by (auto simp: sel_inv_def)

lemma factor_loop_props:
  "2 \<le> n \<Longrightarrow> cand_inv p n \<Longrightarrow> n < (rt + 1) * (rt + 1) \<Longrightarrow>
   \<exists>fs. factor_loop rt n p = Some fs \<and> wf_factors n fs \<and>
        prod_list (map radix fs) = n \<and>
        (\<forall>r \<in> set (map radix fs). (r = 4 \<or> is_prime r) \<and> from_cand p r) \<and>
        sorted_wrt radix_before (map radix fs)"
proof (induction n arbitrary: p rule: less_induct)
  case (less n)
  define p' where "p' = find_radix rt n p"
  define n' where "n' = n div p'"
  have sel: "sel_inv p' n" unfolding p'_def
    by (rule find_radix_sel [OF less.prems(2) less.prems(1) less.prems(3)])
  then have dvd: "p' dvd n" by (simp add: sel_inv_def)
  have pn: "p' * n' = n" using dvd by (simp add: n'_def)
  have p2: "2 \<le> p'" using sel_inv_radix [OF sel] is_prime_ge2 [of p'] by auto
  have unf: "factor_loop rt n p =
      (if n' > 1 then Option.bind (factor_loop rt n' p') (\<lambda>fs. Some (\<lparr>radix = p', flength = n'\<rparr> # fs))
       else Some [\<lparr>radix = p', flength = n'\<rparr>])"
    by (subst factor_loop.simps) (simp add: Let_def p'_def n'_def)
  have n'pos: "0 < n'" using pn less.prems(1) by (cases n') auto
  have fc: "from_cand p p'" by (rule sel_from_cand [OF less.prems(2) sel])
  show ?case
  proof (cases "n' > 1")
    case True
    have "1 * n' < p' * n'" using p2 n'pos by (intro mult_strict_right_mono) auto
    then have lt: "n' < n" using pn by simp
    have c': "cand_inv p' n'" unfolding n'_def using sel less.prems(1) by (intro sel_next) auto
    from lt less.prems(3) have b': "n' < (rt + 1) * (rt + 1)" by simp
    from True have "2 \<le> n'" by simp
    from less.IH [OF lt this c' b'] obtain fs where
      fs: "factor_loop rt n' p' = Some fs" "wf_factors n' fs" "prod_list (map radix fs) = n'"
          "\<forall>r \<in> set (map radix fs). (r = 4 \<or> is_prime r) \<and> from_cand p' r"
          "sorted_wrt radix_before (map radix fs)"
      by blast
    let ?fs = "\<lparr>radix = p', flength = n'\<rparr> # fs"
    have 1: "factor_loop rt n p = Some ?fs" using unf True fs(1) by simp
    have 2: "wf_factors n ?fs" using pn less.prems(1) True fs(2) by simp
    have 3: "prod_list (map radix ?fs) = n" using pn fs(3) by simp
    have 4: "\<forall>r \<in> set (map radix ?fs). (r = 4 \<or> is_prime r) \<and> from_cand p r"
      using fs(4) sel_inv_radix [OF sel] fc from_cand_trans [OF fc _ sel_inv_shape [OF sel]]
      by auto
    have before: "radix_before p' r" if r: "r \<in> set (map radix fs)" for r
    proof -
      from r fs(4) have f: "from_cand p' r" by blast
      from r fs(3) have rd: "r dvd n'" using dvd_prod_list_member [of r "map radix fs"] by simp
      consider "p' = 4" | "p' = 2" "\<not> 4 dvd n" | "odd p'"
        using sel by (auto simp: sel_inv_def)
      then show ?thesis
      proof cases
        case 1
        then show ?thesis by (simp add: radix_before_def)
      next
        case 2
        have "odd n'"
        proof
          assume "even n'"
          then have "2 * 2 dvd 2 * n'" by (simp only: mult_dvd_mono dvd_refl)
          with pn 2(1) have "4 dvd n" by simp
          with 2(2) show False ..
        qed
        with rd have "odd r" by (auto elim: dvdE)
        then have "r \<noteq> 2" "r \<noteq> 4" by auto
        with 2 show ?thesis by (simp add: radix_before_def)
      next
        case 3
        with f show ?thesis by (auto simp: from_cand_def radix_before_def)
      qed
    qed
    have 5: "sorted_wrt radix_before (map radix ?fs)" using fs(5) before by simp
    from 1 2 3 4 5 show ?thesis by blast
  next
    case False
    with n'pos have n1: "n' = 1" by simp
    let ?fs = "[\<lparr>radix = p', flength = n'\<rparr>]"
    have 1: "factor_loop rt n p = Some ?fs" using unf False by simp
    have 2: "wf_factors n ?fs" using pn less.prems(1) n1 by simp
    have 3: "prod_list (map radix ?fs) = n" using pn n1 by simp
    have 4: "\<forall>r \<in> set (map radix ?fs). (r = 4 \<or> is_prime r) \<and> from_cand p r"
      using sel_inv_radix [OF sel] fc by simp
    have 5: "sorted_wrt radix_before (map radix ?fs)" by simp
    from 1 2 3 4 5 show ?thesis by blast
  qed
qed

lemma radices_product_bound:
  "sorted_wrt radix_before rs \<Longrightarrow> \<forall>r \<in> set rs. r = 4 \<or> is_prime r \<Longrightarrow>
   (2 \<notin> set rs \<longrightarrow> 3 ^ length rs \<le> prod_list rs) \<and> 2 * 3 ^ length rs \<le> prod_list rs * 3"
proof (induction rs)
  case Nil
  then show ?case by simp
next
  case (Cons r rs)
  from Cons.prems have IH: "2 \<notin> set rs \<longrightarrow> 3 ^ length rs \<le> prod_list rs"
      "2 * 3 ^ length rs \<le> prod_list rs * 3"
    using Cons.IH by auto
  show ?case
  proof (cases "r = 2")
    case True
    with Cons.prems(1) have "2 \<notin> set rs" by (auto simp: radix_before_def)
    with IH(1) have "3 ^ length rs \<le> prod_list rs" by simp
    with True show ?thesis by simp
  next
    case False
    from Cons.prems(2) have "r = 4 \<or> is_prime r" by simp
    with False is_prime_ge2 [of r] have r3: "3 \<le> r" by auto
    have a: "2 * 3 ^ length (r # rs) \<le> prod_list (r # rs) * 3"
    proof -
      have "3 * (2 * 3 ^ length rs) \<le> r * (prod_list rs * 3)"
        using r3 IH(2) by (rule mult_le_mono)
      then show ?thesis by (simp add: mult_ac)
    qed
    have b: "3 ^ length (r # rs) \<le> prod_list (r # rs)" if "2 \<notin> set (r # rs)"
    proof -
      from that IH(1) have "3 ^ length rs \<le> prod_list rs" by simp
      with r3 have "3 * 3 ^ length rs \<le> r * prod_list rs" by (rule mult_le_mono)
      then show ?thesis by simp
    qed
    from a b show ?thesis by blast
  qed
qed

lemma radices_length_bound:
  assumes "sorted_wrt radix_before rs" "\<forall>r \<in> set rs. r = 4 \<or> is_prime r"
    and "prod_list rs < 2 * 3 ^ 32"
  shows "length rs \<le> 32"
proof (rule ccontr)
  assume "\<not> length rs \<le> 32"
  then have "33 \<le> length rs" by simp
  then have "(3::nat) ^ 33 \<le> 3 ^ length rs" by (intro power_increasing) auto
  then have "2 * (3::nat) ^ 33 \<le> 2 * 3 ^ length rs" by simp
  also have "\<dots> \<le> prod_list rs * 3" using radices_product_bound [OF assms(1,2)] by simp
  finally have "2 * (3::nat) ^ 32 * 3 \<le> prod_list rs * 3" by simp
  then have "2 * (3::nat) ^ 32 \<le> prod_list rs" by (simp only: mult_le_cancel2)
  with assms(3) show False by simp
qed

lemma is_prime_dvd_4: "is_prime q \<Longrightarrow> q dvd 4 \<Longrightarrow> q = 2"
proof -
  assume q: "is_prime q" "q dvd 4"
  then have "q dvd 2 * 2" by simp
  with q(1) have "q dvd 2" using is_prime_dvd_mult by blast
  then have "q \<le> 2" by (auto dest: dvd_imp_le)
  with is_prime_ge2 [OF q(1)] show "q = 2" by simp
qed

lemma is_prime_dvd_prime: "is_prime q \<Longrightarrow> is_prime r \<Longrightarrow> q dvd r \<Longrightarrow> q = r"
  using is_prime_ge2 [of q] by (auto simp: is_prime_iff [of r])

lemma factor_loop_1: "factor_loop (isqrt 1) 1 4 = Some [\<lparr>radix = 1, flength = 1\<rparr>]"
  by code_simp

lemma FFTComplex_new_factors:
  "factor_loop (isqrt N) N 4 = Some fs \<Longrightarrow>
   \<exists>F. FFTComplex_new N = Some F \<and> csize F = N \<and> factors F = fs \<and>
       twiddlesFwd F = fst (make_twiddles N) \<and> twiddlesInv F = snd (make_twiddles N)"
  by (simp add: FFTComplex_new_def split: prod.split)

text \<open>
  Claim C7, amended: for every size \<open>N \<ge> 1\<close> the constructor ends and the factor list it
  records is one \<^verbatim>\<open>perform\<close> can run on; the product of the radices is \<open>N\<close>; every
  radix is 4 or a prime (the single radix 1 for \<open>N = 1\<close>), so that every prime factor of
  \<open>N\<close> is a recorded radix, except that the factor 2 may be present only inside the
  radix 4; the radices come in the order in which they are tried: 4 first, then 2 at
  most once, then odd primes ascending; and at most 32 factors are recorded for every
  \<open>N < 2 * 3 ^ 32\<close>.
\<close>

theorem factor_list_properties:
  assumes "1 \<le> N"
  shows "\<exists>F. FFTComplex_new N = Some F \<and> csize F = N \<and> wf_factors N (factors F) \<and>
     prod_list (map radix (factors F)) = N \<and>
     (\<forall>r \<in> set (map radix (factors F)). r = 4 \<or> is_prime r \<or> N = 1) \<and>
     (\<forall>q. is_prime q \<and> q dvd N \<longrightarrow>
          q \<in> set (map radix (factors F)) \<or> (q = 2 \<and> 4 \<in> set (map radix (factors F)))) \<and>
     sorted_wrt radix_before (map radix (factors F)) \<and>
     (N < 2 * 3 ^ 32 \<longrightarrow> length (factors F) \<le> 32)"
proof (cases "N = 1")
  case True
  from FFTComplex_new_factors [OF factor_loop_1] obtain F where
    F: "FFTComplex_new 1 = Some F" "csize F = 1" "factors F = [\<lparr>radix = 1, flength = 1\<rparr>]"
    by blast
  have "\<not> (is_prime q \<and> q dvd 1)" for q using is_prime_ge2 [of q] by auto
  with F True show ?thesis by simp
next
  case False
  with assms have n2: "2 \<le> N" by simp
  have c: "cand_inv 4 N" by (simp add: cand_inv_def)
  have b: "N < (isqrt N + 1) * (isqrt N + 1)" by (rule isqrt_upper)
  from factor_loop_props [OF n2 c b] obtain fs where
    fs: "factor_loop (isqrt N) N 4 = Some fs" "wf_factors N fs" "prod_list (map radix fs) = N"
        "\<forall>r \<in> set (map radix fs). (r = 4 \<or> is_prime r) \<and> from_cand 4 r"
        "sorted_wrt radix_before (map radix fs)"
    by blast
  from FFTComplex_new_factors [OF fs(1)] obtain F where
    F: "FFTComplex_new N = Some F" "csize F = N" "factors F = fs" by blast
  from fs(4) have rs: "\<forall>r \<in> set (map radix fs). r = 4 \<or> is_prime r" by blast
  have pf: "q \<in> set (map radix fs) \<or> (q = 2 \<and> 4 \<in> set (map radix fs))"
    if q: "is_prime q" "q dvd N" for q
  proof -
    from is_prime_dvd_prod_list [OF q(1), of "map radix fs"] q(2) fs(3)
    obtain r where r: "r \<in> set (map radix fs)" "q dvd r" by auto
    from rs r(1) have "r = 4 \<or> is_prime r" by blast
    then show ?thesis
    proof
      assume "r = 4"
      with r is_prime_dvd_4 [OF q(1)] show ?thesis by auto
    next
      assume "is_prime r"
      with is_prime_dvd_prime [OF q(1) this r(2)] r(1) show ?thesis by simp
    qed
  qed
  have len: "length fs \<le> 32" if "N < 2 * 3 ^ 32"
    using radices_length_bound [OF fs(5) rs] that fs(3) by simp
  from F fs(2,3,5) rs pf len show ?thesis by auto
qed

lemma factor_loop_4: "factor_loop (isqrt 4) 4 4 = Some [\<lparr>radix = 4, flength = 1\<rparr>]"
  by code_simp

lemma factor_loop_12:
  "factor_loop (isqrt 12) 12 4 = Some [\<lparr>radix = 4, flength = 3\<rparr>, \<lparr>radix = 3, flength = 1\<rparr>]"
  by code_simp

text \<open>
  Claim C7 as stated fails at \<open>N = 4\<close>: the only recorded radix is 4, and the prime
  factor 2 of 4 is not a recorded radix.
\<close>

theorem prime_factor_2_counterexample:
  "map_option (map radix \<circ> factors) (FFTComplex_new 4) = Some [4] \<and>
   is_prime 2 \<and> 2 dvd (4::nat) \<and> 2 \<notin> set [4::nat]"
  by (simp add: FFTComplex_new_def factor_loop_4 is_prime_2 split: prod.split)

text \<open>The amended claim C7 at \<open>N = 12\<close>, where the radices are 4 and 3.\<close>

theorem factor_list_properties_witness:
  "(1::nat) \<le> 12 \<and>
   (\<exists>F. FFTComplex_new 12 = Some F \<and> map radix (factors F) = [4, 3] \<and>
        prod_list (map radix (factors F)) = 12 \<and>
        is_prime 3 \<and> 3 dvd (12::nat) \<and> 3 \<in> set (map radix (factors F)) \<and>
        is_prime 2 \<and> 2 dvd (12::nat) \<and> 4 \<in> set (map radix (factors F)) \<and>
        sorted_wrt radix_before (map radix (factors F)) \<and>
        (12::nat) < 2 * 3 ^ 32 \<and> length (factors F) \<le> 32)"
proof -
  have h: "(1::nat) \<le> 12" by simp
  from factor_list_properties [OF h] obtain F where
    F: "FFTComplex_new 12 = Some F" "prod_list (map radix (factors F)) = 12"
       "sorted_wrt radix_before (map radix (factors F))"
       "(12::nat) < 2 * 3 ^ 32 \<longrightarrow> length (factors F) \<le> 32"
    by blast
  from F(1) have "map radix (factors F) = [4, 3]"
    by (auto simp: FFTComplex_new_def factor_loop_12 split: prod.splits)
  with h F is_prime_2 is_prime_3 show ?thesis by auto
qed

subsection \<open>The twiddle index of the generic butterfly\<close>

lemma FFTComplex_new_wf:
  assumes "1 \<le> N"
  shows "\<exists>F. FFTComplex_new N = Some F \<and> csize F = N \<and> wf_factors N (factors F) \<and>
             twiddlesFwd F = fst (make_twiddles N) \<and> twiddlesInv F = snd (make_twiddles N)"
proof (cases "N = 1")
  case True
  from FFTComplex_new_factors [OF factor_loop_1] True show ?thesis by auto
next
  case False
  with assms have n2: "2 \<le> N" by simp
  have c: "cand_inv 4 N" by (simp add: cand_inv_def)
  have b: "N < (isqrt N + 1) * (isqrt N + 1)" by (rule isqrt_upper)
  from factor_loop_props [OF n2 c b] obtain fs where
    fs: "factor_loop (isqrt N) N 4 = Some fs" "wf_factors N fs" by blast
  from FFTComplex_new_factors [OF fs(1)] fs(2) show ?thesis by auto
qed

lemma twIndex_at_0: "twIndex_at sz stride k 0 = 0"
  by (simp add: twIndex_at_def)

lemma twIndex_at_Suc:
  "twIndex_at sz stride k (Suc q) = twIndex_step sz stride k (twIndex_at sz stride k q)"
  by (simp add: twIndex_at_def)

lemma twIndex_step_mod:
  assumes "t < sz" "stride * k < sz"
  shows "twIndex_step sz stride k t = (t + stride * k) mod sz"
proof (cases "t + stride * k \<ge> sz")
  case True
  with assms have "t + stride * k - sz < sz" by simp
  then have "(t + stride * k) mod sz = t + stride * k - sz"
    using True by (simp add: le_mod_geq)
  with True show ?thesis by (simp add: twIndex_step_def Let_def)
next
  case False
  then show ?thesis by (simp add: twIndex_step_def Let_def)
qed

lemma twIndex_at_mod:
  assumes "stride * k < sz"
  shows "twIndex_at sz stride k q = (stride * k * q) mod sz"
proof (induction q)
  case 0
  then show ?case by (simp add: twIndex_at_0)
next
  case (Suc q)
  from assms have "0 < sz" by simp
  then have "(stride * k * q) mod sz < sz" by simp
  from twIndex_step_mod [OF this assms]
  have "twIndex_at sz stride k (Suc q) = ((stride * k * q) mod sz + stride * k) mod sz"
    by (simp add: twIndex_at_Suc Suc.IH)
  also have "\<dots> = (stride * k * q + stride * k) mod sz"
    by (simp add: mod_add_left_eq)
  finally show ?case by (simp add: algebra_simps)
qed



lemma stride_k_bound:
  fixes stride rdx len k N :: nat
  assumes "stride * rdx * len = N" "k < rdx * len" "0 < N"
  shows "stride * k < N"
proof -
  from assms(1,3) have "0 < stride" by (auto intro: Nat.gr0I)
  with assms(2) have "stride * k < stride * (rdx * len)" by simp
  with assms(1) show ?thesis by (simp add: mult.assoc)
qed



subsection \<open>The arithmetic helpers and the twiddle tables\<close>

lemma cexp_cis: "cexp phase = cis phase"
  by (simp add: cexp_def scos_def ssin_def complex_eq_iff)

lemma cmul_times: "cmul a b = a * b"
  by (simp add: cmul_def smul_def complex_eq_iff)

lemma theta_0: "theta sg L 0 = 1"
  by (simp add: theta_def)

lemma theta_add: "theta sg L (a + b) = theta sg L a * theta sg L b"
  by (simp add: theta_def cis_mult algebra_simps add_divide_distrib)

lemma theta_period:
  assumes "0 < L" "sg = 1 \<or> sg = - 1"
  shows "theta sg L (a * L) = 1"
proof -
  from assms(1) have e: "sg * 2 * pi * real (a * L) / real L = 2 * pi * (sg * real a)"
    by simp
  have "sg * real a \<in> \<int>" using assms(2) by auto
  then show ?thesis unfolding theta_def e by (rule cis_multiple_2pi)
qed

lemma theta_mod:
  assumes "0 < L" "sg = 1 \<or> sg = - 1"
  shows "theta sg L (a mod L) = theta sg L a"
proof -
  have "theta sg L a = theta sg L (a mod L + (a div L) * L)" by simp
  also have "\<dots> = theta sg L (a mod L)"
    unfolding theta_add by (simp add: theta_period [OF assms])
  finally show ?thesis ..
qed

lemma theta_scale:
  assumes "0 < c"
  shows "theta sg (c * L) (c * a) = theta sg L a"
proof -
  from assms have "sg * 2 * pi * real (c * a) / real (c * L) = sg * 2 * pi * real a / real L"
    by (simp add: mult.assoc)
  then show ?thesis by (simp only: theta_def)
qed

lemma tw_sign_cases: "tw_sign b = 1 \<or> tw_sign b = - 1"
  by (simp add: tw_sign_def)

lemma twiddle_table:
  assumes "i < N"
  shows "(if b then snd (make_twiddles N) else fst (make_twiddles N)) ! i = theta (tw_sign b) N i"
  using assms by (simp add: make_twiddles_def Let_def cexp_cis theta_def tw_sign_def)

lemma twiddle_table_length:
  "length (if b then snd (make_twiddles N) else fst (make_twiddles N)) = N"
  by (simp add: make_twiddles_def Let_def)

text \<open>Positions of one column are distinct from those of another column.\<close>

lemma column_distinct:
  fixes u u' q q' m :: nat
  assumes "u < m" "u' < m" "u + q * m = u' + q' * m"
  shows "u = u'"
proof -
  from assms(3) have "(u + q * m) mod m = (u' + q' * m) mod m" by simp
  with assms(1,2) show ?thesis by simp
qed

lemma column_pos_distinct:
  fixes u q q' m :: nat
  assumes "0 < m" "u + q * m = u + q' * m"
  shows "q = q'"
  using assms by simp

lemma fold_columns:
  fixes step :: "nat \<Rightarrow> complex list \<Rightarrow> complex list"
  assumes step: "\<And>u b. u < m \<Longrightarrow> length b = n \<Longrightarrow>
        length (step u b) = n \<and>
        (\<forall>j<n. (\<forall>q<r. j \<noteq> output + u + q * m) \<longrightarrow> step u b ! j = b ! j) \<and>
        (\<forall>q1<r. step u b ! (output + u + q1 * m) = (\<Sum>q<r. b ! (output + u + q * m) * c u q1 q))"
    and len: "length b = n" and fits: "output + r * m \<le> n" and i: "i \<le> m"
  shows "length (fold step [0..<i] b) = n \<and>
         (\<forall>j<n. (\<forall>u<i. \<forall>q<r. j \<noteq> output + u + q * m) \<longrightarrow> fold step [0..<i] b ! j = b ! j) \<and>
         (\<forall>u<i. \<forall>q1<r. fold step [0..<i] b ! (output + u + q1 * m) =
                          (\<Sum>q<r. b ! (output + u + q * m) * c u q1 q))"
  using i
proof (induction i)
  case 0
  with len show ?case by simp
next
  case (Suc i)
  define bi where "bi = fold step [0..<i] b"
  from Suc have IH: "length bi = n"
      "\<And>j. j < n \<Longrightarrow> (\<forall>u<i. \<forall>q<r. j \<noteq> output + u + q * m) \<Longrightarrow> bi ! j = b ! j"
      "\<And>u q1. u < i \<Longrightarrow> q1 < r \<Longrightarrow> bi ! (output + u + q1 * m) = (\<Sum>q<r. b ! (output + u + q * m) * c u q1 q)"
    unfolding bi_def by auto
  from Suc.prems have im: "i < m" by simp
  have e: "fold step [0..<Suc i] b = step i bi" by (simp add: bi_def)
  from step [OF im IH(1)] have S: "length (step i bi) = n"
      "\<And>j. j < n \<Longrightarrow> (\<forall>q<r. j \<noteq> output + i + q * m) \<Longrightarrow> step i bi ! j = bi ! j"
      "\<And>q1. q1 < r \<Longrightarrow> step i bi ! (output + i + q1 * m) = (\<Sum>q<r. bi ! (output + i + q * m) * c i q1 q)"
    by auto
  have inb: "output + u + q * m < n" if "u < m" "q < r" for u q
  proof -
    from that have "u + q * m < m + q * m" by simp
    also have "\<dots> = (Suc q) * m" by simp
    also from that(2) have "\<dots> \<le> r * m" by (intro mult_le_mono1) simp
    finally show ?thesis using fits by simp
  qed
  have col_i: "bi ! (output + i + q * m) = b ! (output + i + q * m)" if "q < r" for q
  proof (rule IH(2) [OF inb [OF im that]], intro allI impI)
    fix u q' assume "u < i" "q' < r"
    show "output + i + q * m \<noteq> output + u + q' * m"
    proof
      assume "output + i + q * m = output + u + q' * m"
      then have "i + q * m = u + q' * m" by simp
      from column_distinct [OF im _ this] \<open>u < i\<close> im show False by simp
    qed
  qed
  have 1: "length (step i bi) = n" by (rule S(1))
  have 2: "step i bi ! j = b ! j" if "j < n" "\<forall>u<Suc i. \<forall>q<r. j \<noteq> output + u + q * m" for j
  proof -
    from that(2) have "\<forall>q<r. j \<noteq> output + i + q * m" by simp
    from S(2) [OF that(1) this] have "step i bi ! j = bi ! j" .
    also from that(2) have "bi ! j = b ! j" by (intro IH(2) [OF that(1)]) simp
    finally show ?thesis .
  qed
  have 3: "step i bi ! (output + u + q1 * m) = (\<Sum>q<r. b ! (output + u + q * m) * c u q1 q)"
    if "u < Suc i" "q1 < r" for u q1
  proof (cases "u = i")
    case True
    from S(3) [OF that(2)] have "step i bi ! (output + i + q1 * m) = (\<Sum>q<r. bi ! (output + i + q * m) * c i q1 q)" .
    also have "\<dots> = (\<Sum>q<r. b ! (output + i + q * m) * c i q1 q)"
      by (rule sum.cong) (simp_all add: col_i)
    finally show ?thesis using True by simp
  next
    case False
    with that have ui: "u < i" by simp
    with im have um: "u < m" by simp
    have "\<forall>q<r. output + u + q1 * m \<noteq> output + i + q * m"
    proof (intro allI impI notI)
      fix q assume "output + u + q1 * m = output + i + q * m"
      then have "u + q1 * m = i + q * m" by simp
      from column_distinct [OF um im this] ui show False by simp
    qed
    from S(2) [OF inb [OF um that(2)] this]
    have "step i bi ! (output + u + q1 * m) = bi ! (output + u + q1 * m)" .
    with IH(3) [OF ui that(2)] show ?thesis by simp
  qed
  from 1 2 3 show ?case unfolding e by blast
qed

subsection \<open>The radix-2 butterfly\<close>

lemma theta_half:
  assumes "0 < m" "sg = 1 \<or> sg = - 1"
  shows "theta sg (2 * m) m = - 1"
proof -
  from assms(1) have "sg * 2 * pi * real m / real (2 * m) = sg * pi" by simp
  then have "theta sg (2 * m) m = cis (sg * pi)" by (simp only: theta_def)
  also have "\<dots> = - 1" using assms(2) by (auto simp: complex_eq_iff)
  finally show ?thesis .
qed

lemma theta_quarter:
  assumes "0 < m" "sg = 1 \<or> sg = - 1"
  shows "theta sg (4 * m) m = Complex 0 sg"
proof -
  from assms(1) have "sg * 2 * pi * real m / real (4 * m) = sg * (pi / 2)" by simp
  then have "theta sg (4 * m) m = cis (sg * (pi / 2))" by (simp only: theta_def)
  also have "\<dots> = Complex 0 sg" using assms(2) by (auto simp: complex_eq_iff)
  finally show ?thesis .
qed

lemma theta_table:
  fixes stride L a :: nat
  assumes W: "\<forall>i<N. W ! i = theta sg N i" and N: "N = stride * L" "0 < N" and a: "a < L"
  shows "W ! (a * stride) = theta sg L a"
proof -
  from N have s: "0 < stride" by (auto intro: Nat.gr0I)
  with a N have "a * stride < N" by simp
  with W have "W ! (a * stride) = theta sg (stride * L) (stride * a)"
    by (simp add: N(1) mult.commute)
  with s show ?thesis by (simp add: theta_scale)
qed

lemma sum_lessThan_2: "(\<Sum>q<(2::nat). f q) = f 0 + (f 1 :: complex)"
  by (simp add: numeral_2_eq_2)

lemma sum_lessThan_4: "(\<Sum>q<(4::nat). f q) = f 0 + f 1 + f 2 + (f 3 :: complex)"
  by (simp add: eval_nat_numeral)

lemma butterfly2_step_col:
  assumes W: "\<forall>i<N. W ! i = theta sg N i" and N: "N = stride * (2 * m)" "0 < N"
    and sg: "sg = 1 \<or> sg = - 1"
    and u: "u < m" and len: "length b = n" and fits: "output + 2 * m \<le> n"
  shows "length (butterfly2_step output stride m W u b) = n \<and>
     (\<forall>j<n. (\<forall>q<2. j \<noteq> output + u + q * m) \<longrightarrow> butterfly2_step output stride m W u b ! j = b ! j) \<and>
     (\<forall>q1<2. butterfly2_step output stride m W u b ! (output + u + q1 * m) =
              (\<Sum>q<2. b ! (output + u + q * m) * theta sg (2 * m) ((u + q1 * m) * q)))"
proof -
  from u have m: "0 < m" by simp
  from u have "u < 2 * m" by simp
  from theta_table [OF W N this] have tw: "W ! (u * stride) = theta sg (2 * m) u" .
  have th: "theta sg (2 * m) (u + m) = - theta sg (2 * m) u"
    by (simp add: theta_add theta_half [OF m sg])
  define p0 where "p0 = output + u"
  define p1 where "p1 = output + u + m"
  define t where "t = b ! p1 * theta sg (2 * m) u"
  define b' where "b' = butterfly2_step output stride m W u b"
  from u fits len m have in0: "p0 < length b" and in1: "p1 < length b" and ne: "p0 \<noteq> p1"
    by (simp_all add: p0_def p1_def)
  have idx: "output + m + u = p1" "output + u = p0" by (simp_all add: p0_def p1_def)
  have b'_eq: "b' = (b[p1 := b ! p0 - t])[p0 := b ! p0 + t]"
    using ne in0 in1 by (simp add: b'_def butterfly2_step_def Let_def cmul_times tw idx t_def)
  have 1: "length b' = n" by (simp add: b'_eq len)
  have 2: "b' ! j = b ! j" if "j < n" "\<forall>q<2. j \<noteq> output + u + q * m" for j
  proof -
    from that(2) [rule_format, of 0] that(2) [rule_format, of 1]
    have "j \<noteq> p0" "j \<noteq> p1" by (simp_all add: p0_def p1_def)
    then show ?thesis by (simp add: b'_eq)
  qed
  have 30: "b' ! p0 = b ! p0 + t"
    using in0 by (simp add: b'_eq)
  have 31: "b' ! p1 = b ! p0 - t"
    using in1 ne by (simp add: b'_eq)
  have 3: "b' ! (output + u + q1 * m) = (\<Sum>q<2. b ! (output + u + q * m) * theta sg (2 * m) ((u + q1 * m) * q))"
    if "q1 < 2" for q1
  proof -
    from that consider "q1 = 0" | "q1 = 1" by linarith
    then show ?thesis
    proof cases
      case 1
      have "(\<Sum>q<2. b ! (output + u + q * m) * theta sg (2 * m) ((u + 0 * m) * q)) = b ! p0 + t"
        unfolding sum_lessThan_2 by (simp add: theta_0 p0_def p1_def t_def)
      with 1 30 show ?thesis by (simp add: p0_def)
    next
      case 2
      have "(\<Sum>q<2. b ! (output + u + q * m) * theta sg (2 * m) ((u + 1 * m) * q)) = b ! p0 - t"
        unfolding sum_lessThan_2 by (simp add: theta_0 th p0_def p1_def t_def)
      with 2 31 show ?thesis by (simp add: p1_def)
    qed
  qed
  from 1 2 3 show ?thesis unfolding b'_def by blast
qed

lemma butterfly2_correct:
  assumes W: "\<forall>i<N. W ! i = theta sg N i" and N: "N = stride * (2 * m)" "0 < N"
    and sg: "sg = 1 \<or> sg = - 1"
    and len: "length b = n" and fits: "output + 2 * m \<le> n"
  shows "length (butterfly2 b output stride m W) = n \<and>
     (\<forall>j<n. (\<forall>u<m. \<forall>q<2. j \<noteq> output + u + q * m) \<longrightarrow> butterfly2 b output stride m W ! j = b ! j) \<and>
     (\<forall>u<m. \<forall>q1<2. butterfly2 b output stride m W ! (output + u + q1 * m) =
              (\<Sum>q<2. b ! (output + u + q * m) * theta sg (2 * m) ((u + q1 * m) * q)))"
  unfolding butterfly2_def
  by (rule fold_columns [where r = 2 and n = n, OF butterfly2_step_col [OF W N sg _ _ fits] len fits order_refl])

subsection \<open>The radix-4 butterfly\<close>

lemma theta_mult: "theta sg L (k * a) = theta sg L a ^ k"
  by (induction k) (simp_all add: theta_0 theta_add mult.commute)

lemma theta_col4:
  assumes m: "0 < m" and sg: "sg = 1 \<or> sg = - 1"
  shows "theta sg (4 * m) ((u + q1 * m) * q) = theta sg (4 * m) (q * u) * Complex 0 sg ^ (q1 * q)"
proof -
  have "(u + q1 * m) * q = q * u + (q1 * q) * m" by (simp add: algebra_simps)
  then show ?thesis
    by (simp only: theta_add theta_mult [of sg "4 * m" "q1 * q" m] theta_quarter [OF m sg])
qed

lemma J_powers:
  assumes "sg = 1 \<or> sg = - 1"
  shows "Complex 0 sg ^ 2 = - 1" "Complex 0 sg ^ 3 = - Complex 0 sg" "Complex 0 sg ^ 4 = 1"
    "Complex 0 sg ^ 6 = - 1" "Complex 0 sg ^ 9 = Complex 0 sg"
proof -
  show 2: "Complex 0 sg ^ 2 = - 1" using assms by (auto simp: power2_eq_square complex_eq_iff)
  have "Complex 0 sg ^ 3 = Complex 0 sg ^ 2 * Complex 0 sg" by (simp add: eval_nat_numeral)
  then show 3: "Complex 0 sg ^ 3 = - Complex 0 sg" by (simp add: 2)
  have "Complex 0 sg ^ 4 = Complex 0 sg ^ 2 * Complex 0 sg ^ 2" by (simp flip: power_add)
  then show 4: "Complex 0 sg ^ 4 = 1" by (simp add: 2)
  have "Complex 0 sg ^ 6 = Complex 0 sg ^ 4 * Complex 0 sg ^ 2" by (simp flip: power_add)
  then show "Complex 0 sg ^ 6 = - 1" by (simp add: 2 4)
  have "Complex 0 sg ^ 9 = Complex 0 sg ^ 4 * Complex 0 sg ^ 4 * Complex 0 sg" by (simp flip: power_add power_Suc2)
  then show "Complex 0 sg ^ 9 = Complex 0 sg" by (simp add: 4)
qed

lemma butterfly4_step_col:
  assumes W: "\<forall>i<N. W ! i = theta sg N i" and N: "N = stride * (4 * m)" "0 < N"
    and sg: "sg = tw_sign is_inverse"
    and u: "u < m" and len: "length b = n" and fits: "output + 4 * m \<le> n"
  shows "length (butterfly4_step output stride m W is_inverse u b) = n \<and>
     (\<forall>j<n. (\<forall>q<4. j \<noteq> output + u + q * m) \<longrightarrow>
            butterfly4_step output stride m W is_inverse u b ! j = b ! j) \<and>
     (\<forall>q1<4. butterfly4_step output stride m W is_inverse u b ! (output + u + q1 * m) =
              (\<Sum>q<4. b ! (output + u + q * m) * theta sg (4 * m) ((u + q1 * m) * q)))"
proof -
  from u have m: "0 < m" by simp
  have sg': "sg = 1 \<or> sg = - 1" unfolding sg by (rule tw_sign_cases)
  from u have a: "u < 4 * m" "2 * u < 4 * m" "3 * u < 4 * m" by simp_all
  have tw1: "W ! (u * stride) = theta sg (4 * m) u"
    by (rule theta_table [OF W N a(1)])
  have "W ! (2 * u * stride) = theta sg (4 * m) (2 * u)"
    by (rule theta_table [OF W N a(2)])
  then have tw2: "W ! (u * (stride * 2)) = theta sg (4 * m) (2 * u)"
    by (simp add: mult_ac)
  have "W ! (3 * u * stride) = theta sg (4 * m) (3 * u)"
    by (rule theta_table [OF W N a(3)])
  then have tw3: "W ! (u * (stride * 3)) = theta sg (4 * m) (3 * u)"
    by (simp add: mult_ac)
  define p0 where "p0 = output + u"
  define p1 where "p1 = p0 + m"
  define p2 where "p2 = p0 + 2 * m"
  define p3 where "p3 = p0 + 3 * m"
  define s0 where "s0 = b ! p1 * theta sg (4 * m) u"
  define s1 where "s1 = b ! p2 * theta sg (4 * m) (2 * u)"
  define s2 where "s2 = b ! p3 * theta sg (4 * m) (3 * u)"
  define s4 where "s4 = s0 - s2"
  define s5 where "s5 = b ! p0 - s1"
  define J where "J = Complex 0 sg"
  define B1 where "B1 = b[p0 := b ! p0 + s1]"
  define B2 where "B2 = B1[p2 := B1 ! p0 - (s0 + s2)]"
  define B3 where "B3 = B2[p0 := B2 ! p0 + (s0 + s2)]"
  define b' where "b' = butterfly4_step output stride m W is_inverse u b"
  have pe: "output + u + q * m = p0 + q * m" for q by (simp add: p0_def)
  from u fits len m have inb: "p0 < length b" "p1 < length b" "p2 < length b" "p3 < length b"
    and ne: "p0 \<noteq> p1" "p0 \<noteq> p2" "p0 \<noteq> p3" "p1 \<noteq> p2" "p1 \<noteq> p3" "p2 \<noteq> p3"
    by (simp_all add: p0_def p1_def p2_def p3_def)
  have Js4: "(if is_inverse then Complex (Re s5 - Im s4) (Im s5 + Re s4)
                  else Complex (Re s5 + Im s4) (Im s5 - Re s4)) = s5 + J * s4"
    and Js4': "(if is_inverse then Complex (Re s5 + Im s4) (Im s5 - Re s4)
                  else Complex (Re s5 - Im s4) (Im s5 + Re s4)) = s5 - J * s4"
    by (simp_all add: J_def sg tw_sign_def complex_eq_iff)
  have raw: "b' = (if is_inverse
        then (B3[p1 := Complex (Re s5 - Im s4) (Im s5 + Re s4)])
                [p3 := Complex (Re s5 + Im s4) (Im s5 - Re s4)]
        else (B3[p1 := Complex (Re s5 + Im s4) (Im s5 - Re s4)])
                [p3 := Complex (Re s5 - Im s4) (Im s5 + Re s4)])"
    by (simp only: b'_def butterfly4_step_def Let_def cmul_times tw1 tw2 tw3
          p0_def [symmetric] p1_def [symmetric] p2_def [symmetric] p3_def [symmetric]
          s0_def [symmetric] s1_def [symmetric] s2_def [symmetric]
          s4_def [symmetric] s5_def [symmetric] B1_def [symmetric] B2_def [symmetric]
          B3_def [symmetric])
  have b'_eq: "b' = (B3[p1 := s5 + J * s4])[p3 := s5 - J * s4]"
    unfolding raw using Js4 Js4' by (cases is_inverse) simp_all
  have B3: "length B3 = length b" "B3 ! p0 = b ! p0 + s1 + (s0 + s2)"
    "B3 ! p2 = b ! p0 + s1 - (s0 + s2)" "\<And>j. j \<noteq> p0 \<Longrightarrow> j \<noteq> p2 \<Longrightarrow> B3 ! j = b ! j"
    using inb ne by (simp_all add: B3_def B2_def B1_def)
  have 1: "length b' = n" by (simp add: b'_eq len B3)
  have 2: "b' ! j = b ! j" if "j < n" "\<forall>q<4. j \<noteq> output + u + q * m" for j
  proof -
    from that(2) [rule_format, of 0] that(2) [rule_format, of 1]
      that(2) [rule_format, of 2] that(2) [rule_format, of 3]
    have "j \<noteq> p0" "j \<noteq> p1" "j \<noteq> p2" "j \<noteq> p3" by (simp_all add: p0_def p1_def p2_def p3_def)
    then show ?thesis by (simp add: b'_eq B3)
  qed
  have v0: "b' ! p0 = b ! p0 + s1 + (s0 + s2)" using inb ne by (simp add: b'_eq B3)
  have v1: "b' ! p1 = s5 + J * s4" using inb ne by (simp add: b'_eq B3)
  have v2: "b' ! p2 = b ! p0 + s1 - (s0 + s2)" using inb ne by (simp add: b'_eq B3)
  have v3: "b' ! p3 = s5 - J * s4" using inb ne by (simp add: b'_eq B3)
  have S: "(\<Sum>q<4. b ! (output + u + q * m) * theta sg (4 * m) ((u + q1 * m) * q)) =
           b ! p0 + s0 * J ^ q1 + s1 * J ^ (q1 * 2) + s2 * J ^ (q1 * 3)" for q1
    unfolding sum_lessThan_4 theta_col4 [OF m sg'] pe
    by (simp add: theta_0 p1_def p2_def p3_def s0_def s1_def s2_def J_def)
  note Jp = J_powers [OF sg', folded J_def]
  have J2: "J ^ 2 = - 1" by (rule Jp(1))
  have J3: "J ^ 3 = - J" by (rule Jp(2))
  have J4: "J ^ 4 = 1" by (rule Jp(3))
  have J6: "J ^ 6 = - 1" by (rule Jp(4))
  have J9: "J ^ 9 = J" by (rule Jp(5))
  have q0: "b ! p0 + s0 * J ^ 0 + s1 * J ^ (0 * 2) + s2 * J ^ (0 * 3) = b ! p0 + s1 + (s0 + s2)"
    by simp
  have S0: "(\<Sum>q<4. b ! (output + u + q * m) * theta sg (4 * m) ((u + 0 * m) * q)) = b' ! (output + u + 0 * m)"
  proof -
    have "b' ! (output + u + 0 * m) = b' ! p0" by (simp add: p0_def)
    then show ?thesis by (simp only: S [of 0] q0 v0)
  qed
  have e: "(1::nat) * 2 = 2" "(1::nat) * 3 = 3" "(2::nat) * 2 = 4" "(2::nat) * 3 = 6"
    "(3::nat) * 2 = 6" "(3::nat) * 3 = 9" by simp_all
  have q1: "b ! p0 + s0 * J ^ 1 + s1 * J ^ (1 * 2) + s2 * J ^ (1 * 3) = s5 + J * s4"
    unfolding e power_one_right J2 J3 by (simp add: s4_def s5_def algebra_simps)
  have S1: "(\<Sum>q<4. b ! (output + u + q * m) * theta sg (4 * m) ((u + 1 * m) * q)) = b' ! (output + u + 1 * m)"
  proof -
    have "b' ! (output + u + 1 * m) = b' ! p1" by (simp add: p0_def p1_def)
    then show ?thesis by (simp only: S [of 1] q1 v1)
  qed
  have q2: "b ! p0 + s0 * J ^ 2 + s1 * J ^ (2 * 2) + s2 * J ^ (2 * 3) = b ! p0 + s1 - (s0 + s2)"
    unfolding e J2 J4 J6 by (simp add: algebra_simps)
  have S2: "(\<Sum>q<4. b ! (output + u + q * m) * theta sg (4 * m) ((u + 2 * m) * q)) = b' ! (output + u + 2 * m)"
  proof -
    have "b' ! (output + u + 2 * m) = b' ! p2" by (simp add: p0_def p2_def)
    then show ?thesis by (simp only: S [of 2] q2 v2)
  qed
  have q3: "b ! p0 + s0 * J ^ 3 + s1 * J ^ (3 * 2) + s2 * J ^ (3 * 3) = s5 - J * s4"
    unfolding e J3 J6 J9 by (simp add: s4_def s5_def algebra_simps)
  have S3: "(\<Sum>q<4. b ! (output + u + q * m) * theta sg (4 * m) ((u + 3 * m) * q)) = b' ! (output + u + 3 * m)"
  proof -
    have "b' ! (output + u + 3 * m) = b' ! p3" by (simp add: p0_def p3_def)
    then show ?thesis by (simp only: S [of 3] q3 v3)
  qed
  have 3: "b' ! (output + u + q1 * m) = (\<Sum>q<4. b ! (output + u + q * m) * theta sg (4 * m) ((u + q1 * m) * q))"
    if "q1 < 4" for q1
  proof -
    from that consider "q1 = 0" | "q1 = 1" | "q1 = 2" | "q1 = 3" by linarith
    then show ?thesis
    proof cases
      case 1
      show ?thesis unfolding 1 by (rule S0 [symmetric])
    next
      case 2
      show ?thesis unfolding 2 by (rule S1 [symmetric])
    next
      case 3
      show ?thesis unfolding 3 by (rule S2 [symmetric])
    next
      case 4
      show ?thesis unfolding 4 by (rule S3 [symmetric])
    qed
  qed
  from 1 2 3 show ?thesis unfolding b'_def by blast
qed

lemma butterfly4_correct:
  assumes W: "\<forall>i<N. W ! i = theta sg N i" and N: "N = stride * (4 * m)" "0 < N"
    and sg: "sg = tw_sign is_inverse"
    and len: "length b = n" and fits: "output + 4 * m \<le> n"
  shows "length (butterfly4 b output stride m W is_inverse) = n \<and>
     (\<forall>j<n. (\<forall>u<m. \<forall>q<4. j \<noteq> output + u + q * m) \<longrightarrow>
            butterfly4 b output stride m W is_inverse ! j = b ! j) \<and>
     (\<forall>u<m. \<forall>q1<4. butterfly4 b output stride m W is_inverse ! (output + u + q1 * m) =
              (\<Sum>q<4. b ! (output + u + q * m) * theta sg (4 * m) ((u + q1 * m) * q)))"
  unfolding butterfly4_def
  by (rule fold_columns [where r = 4 and n = n, OF butterfly4_step_col [OF W N sg _ _ fits] len fits order_refl])

subsection \<open>The generic butterfly\<close>

lemma generic_inner_fold:
  assumes pos: "output + k < length b1" and n: "Suc 0 \<le> n"
  shows "fold (generic_inner_step sz output stride W scratch k) [Suc 0..<n] (0, b1) =
         (twIndex_at sz stride k (n - Suc 0),
          b1[output + k := b1 ! (output + k) +
               (\<Sum>q\<in>{Suc 0..<n}. scratch ! q * W ! (twIndex_at sz stride k q))])"
  using n
proof (induction n rule: nat_induct_at_least)
  case base
  show ?case by (simp add: twIndex_at_0)
next
  case (Suc n)
  from Suc.hyps have n0: "0 < n" by simp
  have up: "[Suc 0..<Suc n] = [Suc 0..<n] @ [n]" using Suc.hyps by simp
  have tw: "twIndex_step sz stride k (twIndex_at sz stride k (n - Suc 0)) = twIndex_at sz stride k n"
    using n0 twIndex_at_Suc [of sz stride k "n - Suc 0"] by simp
  have s: "(\<Sum>q\<in>{Suc 0..<Suc n}. scratch ! q * W ! (twIndex_at sz stride k q)) =
           (\<Sum>q\<in>{Suc 0..<n}. scratch ! q * W ! (twIndex_at sz stride k q)) +
           scratch ! n * W ! (twIndex_at sz stride k n)"
    using Suc.hyps by (simp add: sum.atLeastLessThan_Suc)
  have "fold (generic_inner_step sz output stride W scratch k) [Suc 0..<Suc n] (0, b1) =
        generic_inner_step sz output stride W scratch k n
          (twIndex_at sz stride k (n - Suc 0),
           b1[output + k := b1 ! (output + k) +
               (\<Sum>q\<in>{Suc 0..<n}. scratch ! q * W ! (twIndex_at sz stride k q))])"
    unfolding up fold_append comp_apply Suc.IH by simp
  also have "\<dots> = (twIndex_at sz stride k n,
          b1[output + k := b1 ! (output + k) +
               (\<Sum>q\<in>{Suc 0..<Suc n}. scratch ! q * W ! (twIndex_at sz stride k q))])"
    unfolding s using pos by (simp add: generic_inner_step_def Let_def tw cmul_times add.assoc)
  finally show ?case by simp
qed

lemma theta_twIndex:
  fixes stride rdx len k q N :: nat
  assumes W: "\<forall>i<N. W ! i = theta sg N i" and N: "N = stride * (rdx * len)" "0 < N"
    and sg: "sg = 1 \<or> sg = - 1" and k: "k < rdx * len"
  shows "W ! (twIndex_at N stride k q) = theta sg (rdx * len) (k * q)"
proof -
  from N have s: "0 < stride" by (auto intro: Nat.gr0I)
  from N(1) have e: "stride * rdx * len = N" by (simp add: mult.assoc)
  from stride_k_bound [OF e k N(2)] have b: "stride * k < N" .
  have "twIndex_at N stride k q = (stride * k * q) mod N" by (rule twIndex_at_mod [OF b])
  moreover from N(2) have "(stride * k * q) mod N < N" by simp
  ultimately have "W ! (twIndex_at N stride k q) = theta sg N ((stride * k * q) mod N)"
    using W by simp
  also have "\<dots> = theta sg N (stride * k * q)" by (rule theta_mod [OF N(2) sg])
  also have "\<dots> = theta sg (stride * (rdx * len)) (stride * (k * q))"
    by (simp only: N(1) mult.assoc)
  also have "\<dots> = theta sg (rdx * len) (k * q)" by (rule theta_scale [OF s])
  finally show ?thesis .
qed

lemma generic_output_step_eq:
  assumes W: "\<forall>i<N. W ! i = theta sg N i" and N: "N = stride * (rdx * len)" "0 < N"
    and sg: "sg = 1 \<or> sg = - 1" and k: "u + q1 * len < rdx * len"
    and pos: "output + (u + q1 * len) < length b" and r: "0 < rdx"
  shows "generic_output_step N output stride rdx len W scratch u q1 b =
         b[output + (u + q1 * len) := (\<Sum>q<rdx. scratch ! q * theta sg (rdx * len) ((u + q1 * len) * q))]"
proof -
  define k where "k = u + q1 * len"
  define b1 where "b1 = b[output + k := scratch ! 0]"
  from pos have p1: "output + k < length b1" by (simp add: b1_def k_def)
  from r have r1: "Suc 0 \<le> rdx" by simp
  have tw: "W ! (twIndex_at N stride k q) = theta sg (rdx * len) (k * q)" for q
    by (rule theta_twIndex [OF W N sg]) (use k in \<open>simp add: k_def\<close>)
  have "(\<Sum>q<rdx. scratch ! q * theta sg (rdx * len) (k * q)) =
        (\<Sum>q\<in>{0..<rdx}. scratch ! q * theta sg (rdx * len) (k * q))"
    by (simp only: lessThan_atLeast0)
  also have "\<dots> = scratch ! 0 * theta sg (rdx * len) (k * 0) +
        (\<Sum>q\<in>{Suc 0..<rdx}. scratch ! q * theta sg (rdx * len) (k * q))"
    by (rule sum.atLeast_Suc_lessThan [OF r])
  finally have s: "(\<Sum>q<rdx. scratch ! q * theta sg (rdx * len) (k * q)) =
        scratch ! 0 + (\<Sum>q\<in>{1..<rdx}. scratch ! q * theta sg (rdx * len) (k * q))"
    by (simp add: theta_0)
  have "generic_output_step N output stride rdx len W scratch u q1 b =
        snd (fold (generic_inner_step N output stride W scratch k) [1..<rdx] (0, b1))"
    by (simp add: generic_output_step_def Let_def k_def b1_def)
  also have "\<dots> = b1[output + k := b1 ! (output + k) +
               (\<Sum>q\<in>{1..<rdx}. scratch ! q * W ! (twIndex_at N stride k q))]"
    by (simp add: generic_inner_fold [OF p1 r1])
  also have "\<dots> = b[output + k := (\<Sum>q<rdx. scratch ! q * theta sg (rdx * len) (k * q))]"
    using pos by (simp add: b1_def k_def [symmetric] tw s)
  finally show ?thesis by (simp only: k_def)
qed

lemma generic_column_col:
  assumes W: "\<forall>i<N. W ! i = theta sg N i" and N: "N = stride * (rdx * len)" "0 < N"
    and sg: "sg = 1 \<or> sg = - 1"
    and u: "u < len" and len: "length b = n" and fits: "output + rdx * len \<le> n"
  shows "length (generic_column N output stride rdx len W u b) = n \<and>
     (\<forall>j<n. (\<forall>q<rdx. j \<noteq> output + u + q * len) \<longrightarrow>
            generic_column N output stride rdx len W u b ! j = b ! j) \<and>
     (\<forall>q1<rdx. generic_column N output stride rdx len W u b ! (output + u + q1 * len) =
              (\<Sum>q<rdx. b ! (output + u + q * len) * theta sg (rdx * len) ((u + q1 * len) * q)))"
proof -
  define scratch where "scratch = map (\<lambda>q1. b ! (output + (u + q1 * len))) [0..<rdx]"
  define V where "V q1 = (\<Sum>q<rdx. scratch ! q * theta sg (rdx * len) ((u + q1 * len) * q))" for q1
  define step where "step = generic_output_step N output stride rdx len W scratch u"
  from N have r: "0 < rdx" by (auto intro: Nat.gr0I)
  from u have m: "0 < len" by simp
  have kb: "u + q1 * len < rdx * len" if "q1 < rdx" for q1
  proof -
    from u have "u + q1 * len < len + q1 * len" by simp
    also have "\<dots> = Suc q1 * len" by simp
    also from that have "\<dots> \<le> rdx * len" by (intro mult_le_mono1) simp
    finally show ?thesis .
  qed
  have st: "step q1 c = c[output + (u + q1 * len) := V q1]" if "q1 < rdx" "length c = n" for q1 c
    unfolding step_def V_def
    by (rule generic_output_step_eq [OF W N sg kb [OF that(1)] _ r])
       (use kb [OF that(1)] fits that(2) in simp)
  have loop: "length (fold step [0..<i] b) = n \<and>
        (\<forall>j<n. (\<forall>q<i. j \<noteq> output + (u + q * len)) \<longrightarrow> fold step [0..<i] b ! j = b ! j) \<and>
        (\<forall>q1<i. fold step [0..<i] b ! (output + (u + q1 * len)) = V q1)"
    if "i \<le> rdx" for i
    using that
  proof (induction i)
    case 0
    with len show ?case by simp
  next
    case (Suc i)
    define c where "c = fold step [0..<i] b"
    from Suc have IH: "length c = n"
      "\<And>j. j < n \<Longrightarrow> (\<forall>q<i. j \<noteq> output + (u + q * len)) \<Longrightarrow> c ! j = b ! j"
      "\<And>q1. q1 < i \<Longrightarrow> c ! (output + (u + q1 * len)) = V q1"
      unfolding c_def by auto
    from Suc.prems have ir: "i < rdx" by simp
    have e: "fold step [0..<Suc i] b = c[output + (u + i * len) := V i]"
      by (simp add: c_def [symmetric] st [OF ir IH(1)])
    from kb [OF ir] fits IH(1) have inb: "output + (u + i * len) < length c" by simp
    have 1: "length (c[output + (u + i * len) := V i]) = n" by (simp add: IH(1))
    have 2: "c[output + (u + i * len) := V i] ! j = b ! j"
      if "j < n" "\<forall>q<Suc i. j \<noteq> output + (u + q * len)" for j
    proof -
      from that(2) have "j \<noteq> output + (u + i * len)" by simp
      moreover from that(2) have "\<forall>q<i. j \<noteq> output + (u + q * len)" by simp
      ultimately show ?thesis using IH(2) [OF that(1)] by simp
    qed
    have 3: "c[output + (u + i * len) := V i] ! (output + (u + q1 * len)) = V q1"
      if "q1 < Suc i" for q1
    proof (cases "q1 = i")
      case True
      with inb show ?thesis by simp
    next
      case False
      with that have qi: "q1 < i" by simp
      with m have "output + (u + q1 * len) \<noteq> output + (u + i * len)" by simp
      with IH(3) [OF qi] show ?thesis by simp
    qed
    from 1 2 3 show ?case unfolding e by blast
  qed
  have sc: "scratch ! q = b ! (output + u + q * len)" if "q < rdx" for q
    using that by (simp add: scratch_def add.assoc)
  have Veq: "V q1 = (\<Sum>q<rdx. b ! (output + u + q * len) * theta sg (rdx * len) ((u + q1 * len) * q))" for q1
    unfolding V_def by (rule sum.cong) (simp_all add: sc)
  have co: "generic_column N output stride rdx len W u b = fold step [0..<rdx] b"
    by (simp add: generic_column_def Let_def step_def scratch_def)
  from loop [OF order_refl] show ?thesis
    unfolding co Veq by (simp add: add.assoc)
qed

lemma butterflyGeneric_correct:
  assumes W: "\<forall>i<N. W ! i = theta sg N i" and N: "N = stride * (rdx * len)" "0 < N"
    and sg: "sg = 1 \<or> sg = - 1" and F: "csize F = N"
    and len: "length b = n" and fits: "output + rdx * len \<le> n"
  shows "length (butterflyGeneric F b output stride rdx len W) = n \<and>
     (\<forall>j<n. (\<forall>u<len. \<forall>q<rdx. j \<noteq> output + u + q * len) \<longrightarrow>
            butterflyGeneric F b output stride rdx len W ! j = b ! j) \<and>
     (\<forall>u<len. \<forall>q1<rdx. butterflyGeneric F b output stride rdx len W ! (output + u + q1 * len) =
              (\<Sum>q<rdx. b ! (output + u + q * len) * theta sg (rdx * len) ((u + q1 * len) * q)))"
  unfolding butterflyGeneric_def F
  by (rule fold_columns [where r = rdx and n = n,
        OF generic_column_col [OF W N sg _ _ fits] len fits order_refl])

subsection \<open>Combining the transforms of the sub-signals\<close>

lemma butterfly_dispatch:
  assumes W: "\<forall>i<N. W ! i = theta sg N i" and N: "N = stride * (rdx * len)" "0 < N"
    and sg: "sg = tw_sign is_inverse" and F: "csize F = N"
    and len: "length b = n" and fits: "output + rdx * len \<le> n"
  defines "b' \<equiv> (if rdx = 2 then butterfly2 b output stride len W
                  else if rdx = 4 then butterfly4 b output stride len W is_inverse
                  else butterflyGeneric F b output stride rdx len W)"
  shows "length b' = n \<and>
     (\<forall>j<n. (\<forall>u<len. \<forall>q<rdx. j \<noteq> output + u + q * len) \<longrightarrow> b' ! j = b ! j) \<and>
     (\<forall>u<len. \<forall>q1<rdx. b' ! (output + u + q1 * len) =
              (\<Sum>q<rdx. b ! (output + u + q * len) * theta sg (rdx * len) ((u + q1 * len) * q)))"
proof -
  have sg': "sg = 1 \<or> sg = - 1" unfolding sg by (rule tw_sign_cases)
  consider "rdx = 2" | "rdx = 4" | "rdx \<noteq> 2" "rdx \<noteq> 4" by blast
  then show ?thesis
  proof cases
    case 1
    from butterfly2_correct [OF W N [unfolded 1] sg' len fits [unfolded 1]]
    show ?thesis unfolding b'_def 1 by simp
  next
    case 2
    from butterfly4_correct [OF W N [unfolded 2] sg len fits [unfolded 2]]
    show ?thesis unfolding b'_def 2 by simp
  next
    case 3
    from butterflyGeneric_correct [OF W N sg' F len fits]
    show ?thesis unfolding b'_def using 3 by simp
  qed
qed

lemma sub_dft_theta:
  "sub_dft sg inp input step L k = (\<Sum>n<L. inp ! (input + n * step) * theta sg L (k * n))"
  by (simp add: sub_dft_def theta_def mult.assoc)

lemma sum_regroup:
  fixes g :: "nat \<Rightarrow> complex"
  shows "(\<Sum>n<r * m. g n) = (\<Sum>q<r. \<Sum>j<m. g (q + j * r))"
proof -
  have "(\<Sum>n<r * m. g n) = (\<Sum>n<m * r. g n)" by (simp add: mult.commute)
  also have "\<dots> = (\<Sum>j<m. sum g {j * r..<j * r + r})" by (rule sum.nat_group [symmetric])
  also have "\<dots> = (\<Sum>j<m. \<Sum>q<r. g (q + j * r))"
  proof (rule sum.cong [OF refl])
    fix j
    have "sum g {j * r..<j * r + r} = sum g {0 + j * r..<r + j * r}" by (simp add: add.commute)
    also have "\<dots> = sum (\<lambda>q. g (q + j * r)) {0..<r}" by (rule sum.shift_bounds_nat_ivl)
    finally show "sum g {j * r..<j * r + r} = (\<Sum>q<r. g (q + j * r))"
      by (simp only: lessThan_atLeast0)
  qed
  also have "\<dots> = (\<Sum>q<r. \<Sum>j<m. g (q + j * r))" by (rule sum.swap)
  finally show ?thesis .
qed

lemma cooley_tukey:
  assumes r: "0 < r" and m: "0 < m" and sg: "sg = 1 \<or> sg = - 1"
  shows "sub_dft sg inp input step (r * m) (u + q1 * m) =
         (\<Sum>q<r. sub_dft sg inp (input + q * step) (step * r) m u * theta sg (r * m) ((u + q1 * m) * q))"
proof -
  define k where "k = u + q1 * m"
  have tw: "theta sg (r * m) (k * (q + j * r)) = theta sg m (u * j) * theta sg (r * m) (k * q)" for q j
  proof -
    have "k * (q + j * r) = k * q + r * (k * j)" by (simp add: algebra_simps)
    then have "theta sg (r * m) (k * (q + j * r)) = theta sg (r * m) (k * q) * theta sg (r * m) (r * (k * j))"
      by (simp only: theta_add)
    also have "theta sg (r * m) (r * (k * j)) = theta sg m (k * j)" by (rule theta_scale [OF r])
    also have "k * j = u * j + (q1 * j) * m" by (simp add: k_def algebra_simps)
    also have "theta sg m (u * j + (q1 * j) * m) = theta sg m (u * j)"
      by (simp only: theta_add theta_period [OF m sg] mult_1_right)
    finally show ?thesis by (simp add: mult.commute)
  qed
  have "sub_dft sg inp input step (r * m) k =
        (\<Sum>q<r. \<Sum>j<m. inp ! (input + (q + j * r) * step) * theta sg (r * m) (k * (q + j * r)))"
    unfolding sub_dft_theta by (rule sum_regroup)
  also have "\<dots> = (\<Sum>q<r. (\<Sum>j<m. inp ! (input + q * step + j * (step * r)) * theta sg m (u * j)) * theta sg (r * m) (k * q))"
  proof (rule sum.cong [OF refl])
    fix q
    have idx: "input + (q + j * r) * step = input + q * step + j * (step * r)" for j
      by (simp add: algebra_simps)
    have "(\<Sum>j<m. inp ! (input + (q + j * r) * step) * theta sg (r * m) (k * (q + j * r))) =
          (\<Sum>j<m. inp ! (input + q * step + j * (step * r)) * theta sg m (u * j) * theta sg (r * m) (k * q))"
      by (rule sum.cong [OF refl]) (simp only: idx tw mult.assoc)
    then show "(\<Sum>j<m. inp ! (input + (q + j * r) * step) * theta sg (r * m) (k * (q + j * r))) =
          (\<Sum>j<m. inp ! (input + q * step + j * (step * r)) * theta sg m (u * j)) * theta sg (r * m) (k * q)"
      by (simp only: sum_distrib_right)
  qed
  finally show ?thesis unfolding sub_dft_theta k_def .
qed

lemma copy_loop:
  assumes "output + i \<le> length buf"
  shows "length (fold (\<lambda>j b. b[output + j := f j]) [0..<i] buf) = length buf \<and>
         (\<forall>j<length buf. j < output \<or> output + i \<le> j \<longrightarrow>
              fold (\<lambda>j b. b[output + j := f j]) [0..<i] buf ! j = buf ! j) \<and>
         (\<forall>q<i. fold (\<lambda>j b. b[output + j := f j]) [0..<i] buf ! (output + q) = f q)"
  using assms
proof (induction i)
  case 0
  then show ?case by simp
next
  case (Suc i)
  then have IH: "length (fold (\<lambda>j b. b[output + j := f j]) [0..<i] buf) = length buf"
    "\<And>j. j < length buf \<Longrightarrow> j < output \<or> output + i \<le> j \<Longrightarrow>
              fold (\<lambda>j b. b[output + j := f j]) [0..<i] buf ! j = buf ! j"
    "\<And>q. q < i \<Longrightarrow> fold (\<lambda>j b. b[output + j := f j]) [0..<i] buf ! (output + q) = f q"
    by auto
  define c where "c = fold (\<lambda>j b. b[output + j := f j]) [0..<i] buf"
  have e: "fold (\<lambda>j b. b[output + j := f j]) [0..<Suc i] buf = c[output + i := f i]"
    by (simp add: c_def)
  from Suc.prems IH(1) have inb: "output + i < length c" by (simp add: c_def)
  have 1: "length (c[output + i := f i]) = length buf" using IH(1) by (simp add: c_def)
  have 2: "c[output + i := f i] ! j = buf ! j" if "j < length buf" "j < output \<or> output + Suc i \<le> j" for j
  proof -
    from that(2) have "j \<noteq> output + i" "j < output \<or> output + i \<le> j" by auto
    with IH(2) [OF that(1)] show ?thesis by (simp add: c_def)
  qed
  have 3: "c[output + i := f i] ! (output + q) = f q" if "q < Suc i" for q
  proof (cases "q = i")
    case True
    with inb show ?thesis by simp
  next
    case False
    with that have "q < i" by simp
    with IH(3) [OF this] False show ?thesis by (simp add: c_def)
  qed
  from 1 2 3 show ?case unfolding e by blast
qed

lemma fold_blocks:
  fixes P :: "nat \<Rightarrow> complex list \<Rightarrow> complex list option"
  assumes call: "\<And>q b. q < r \<Longrightarrow> length b = n \<Longrightarrow>
        \<exists>b'. P q b = Some b' \<and> length b' = n \<and>
             (\<forall>j<n. j < output + q * m \<or> output + q * m + m \<le> j \<longrightarrow> b' ! j = b ! j) \<and>
             (\<forall>u<m. b' ! (output + q * m + u) = V q u)"
    and len: "length buf = n" and i: "i \<le> r" and fits: "output + r * m \<le> n"
  shows "\<exists>b'. fold (\<lambda>q rr. Option.bind rr (P q)) [0..<i] (Some buf) = Some b' \<and> length b' = n \<and>
             (\<forall>j<n. j < output \<or> output + i * m \<le> j \<longrightarrow> b' ! j = buf ! j) \<and>
             (\<forall>q<i. \<forall>u<m. b' ! (output + q * m + u) = V q u)"
  using i
proof (induction i)
  case 0
  with len show ?case by simp
next
  case (Suc i)
  then obtain c where c: "fold (\<lambda>q rr. Option.bind rr (P q)) [0..<i] (Some buf) = Some c"
      "length c = n"
      "\<And>j. j < n \<Longrightarrow> j < output \<or> output + i * m \<le> j \<Longrightarrow> c ! j = buf ! j"
      "\<And>q u. q < i \<Longrightarrow> u < m \<Longrightarrow> c ! (output + q * m + u) = V q u"
    by auto
  from Suc.prems have ir: "i < r" by simp
  from call [OF ir c(2)] obtain b' where b': "P i c = Some b'" "length b' = n"
      "\<And>j. j < n \<Longrightarrow> j < output + i * m \<or> output + i * m + m \<le> j \<Longrightarrow> b' ! j = c ! j"
      "\<And>u. u < m \<Longrightarrow> b' ! (output + i * m + u) = V i u"
    by auto
  have e: "fold (\<lambda>q rr. Option.bind rr (P q)) [0..<Suc i] (Some buf) = Some b'"
    by (simp add: c(1) b'(1))
  have 2: "b' ! j = buf ! j" if "j < n" "j < output \<or> output + Suc i * m \<le> j" for j
  proof -
    from that(2) have "j < output + i * m \<or> output + i * m + m \<le> j" by auto
    from b'(3) [OF that(1) this] have "b' ! j = c ! j" .
    moreover from that(2) have "j < output \<or> output + i * m \<le> j" by auto
    ultimately show ?thesis using c(3) [OF that(1)] by simp
  qed
  have 3: "b' ! (output + q * m + u) = V q u" if "q < Suc i" "u < m" for q u
  proof (cases "q = i")
    case True
    with b'(4) [OF that(2)] show ?thesis by simp
  next
    case False
    with that have qi: "q < i" by simp
    then have "Suc q \<le> i" by simp
    then have "Suc q * m \<le> i * m" by (rule mult_le_mono1)
    with that(2) have lt: "output + q * m + u < output + i * m" by simp
    from ir have "i \<le> r" by simp
    then have "i * m \<le> r * m" by (rule mult_le_mono1)
    with lt fits have "output + q * m + u < n" by linarith
    from b'(3) [OF this] lt have "b' ! (output + q * m + u) = c ! (output + q * m + u)" by simp
    with c(4) [OF qi that(2)] show ?thesis by simp
  qed
  from e b'(2) 2 3 show ?case by blast
qed

subsection \<open>The recursive driver\<close>

lemma sub_dft_single: "sub_dft sg inp input step (Suc 0) 0 = inp ! input"
  by (simp add: sub_dft_def)

lemma split_index:
  fixes k m r :: nat
  assumes "k < r * m" "0 < m"
  shows "k mod m < m" "k div m < r" "k mod m + k div m * m = k"
proof -
  from assms(2) show "k mod m < m" by simp
  from assms show "k div m < r" by (simp add: less_mult_imp_div_less)
  show "k mod m + k div m * m = k" by simp
qed

lemma outside_block:
  fixes j u q m r :: nat
  assumes "j < output \<or> output + r * m \<le> j" "u < m" "q < r"
  shows "j \<noteq> output + u + q * m"
proof
  assume e: "j = output + u + q * m"
  from assms(2) have "u + q * m < m + q * m" by simp
  also have "\<dots> = Suc q * m" by simp
  also from assms(3) have "\<dots> \<le> r * m" by (intro mult_le_mono1) simp
  finally have "output + u + q * m < output + r * m" by simp
  with e assms(1) show False by simp
qed

lemma perform_correct:
  assumes W: "\<forall>i<N. (if is_inverse then twiddlesInv F else twiddlesFwd F) ! i = theta sg N i"
    and sg: "sg = tw_sign is_inverse" and F: "csize F = N" and N0: "0 < N"
  shows "wf_factors L fs \<Longrightarrow> N = stride * L \<Longrightarrow> output + L \<le> length buf \<Longrightarrow>
    \<exists>b'. perform F inp input buf output stride inStride fs is_inverse = Some b' \<and>
         length b' = length buf \<and>
         (\<forall>j<length buf. j < output \<or> output + L \<le> j \<longrightarrow> b' ! j = buf ! j) \<and>
         (\<forall>k<L. b' ! (output + k) = sub_dft sg inp input (stride * inStride) L k)"
proof (induction fs arbitrary: L stride input buf "output")
  case Nil
  then show ?case by simp
next
  case (Cons f fs)
  define r where "r = radix f"
  define m where "m = flength f"
  define step where "step = stride * inStride"
  define n where "n = length buf"
  define Wt where "Wt = (if is_inverse then twiddlesInv F else twiddlesFwd F)"
  define V where "V q u = sub_dft sg inp (input + q * step) (step * r) m u" for q u
  have sg': "sg = 1 \<or> sg = - 1" unfolding sg by (rule tw_sign_cases)
  from Cons.prems(1) have rm: "r * m = L" and L0: "0 < L"
    and tl: "if m = 1 then fs = [] else wf_factors m fs"
    by (simp_all add: r_def m_def)
  from rm L0 have r0: "0 < r" and m0: "0 < m" by (auto intro: Nat.gr0I)
  from Cons.prems(2) rm have N: "N = stride * (r * m)" by simp
  from Cons.prems(3) rm have fits: "output + r * m \<le> n" by (simp add: n_def)
  define stage1 where "stage1 =
     (if m = 1
      then Some (fold (\<lambda>j b. b[output + j := inp ! (input + j * (stride * inStride))]) [0..<r] buf)
      else fold (\<lambda>q rr. Option.bind rr (\<lambda>b.
                   perform F inp (input + q * (stride * inStride)) b (output + q * m)
                     (stride * r) inStride fs is_inverse))
             [0..<r] (Some buf))"
  have s1: "\<exists>b1. stage1 = Some b1 \<and> length b1 = n \<and>
        (\<forall>j<n. j < output \<or> output + r * m \<le> j \<longrightarrow> b1 ! j = buf ! j) \<and>
        (\<forall>q<r. \<forall>u<m. b1 ! (output + q * m + u) = V q u)"
  proof (cases "m = 1")
    case True
    from fits True have "output + r \<le> length buf" by (simp add: n_def)
    from copy_loop [OF this, of "\<lambda>j. inp ! (input + j * (stride * inStride))"]
    show ?thesis
      unfolding stage1_def using True
      by (simp add: n_def V_def step_def sub_dft_single)
  next
    case False
    with tl have wf: "wf_factors m fs" by simp
    from N have N': "N = (stride * r) * m" by (simp add: mult.assoc)
    have call: "\<exists>b'. perform F inp (input + q * (stride * inStride)) b (output + q * m)
                     (stride * r) inStride fs is_inverse = Some b' \<and> length b' = n \<and>
             (\<forall>j<n. j < output + q * m \<or> output + q * m + m \<le> j \<longrightarrow> b' ! j = b ! j) \<and>
             (\<forall>u<m. b' ! (output + q * m + u) = V q u)"
      if "q < r" "length b = n" for q b
    proof -
      from that(1) have "Suc q * m \<le> r * m" by (intro mult_le_mono1) simp
      with fits that(2) have fq: "output + q * m + m \<le> length b" by simp
      have e: "stride * r * inStride = step * r" by (simp add: step_def mult_ac)
      from Cons.IH [OF wf N' fq, of "input + q * (stride * inStride)"]
      show ?thesis unfolding that(2) V_def e step_def [symmetric] .
    qed
    have lb: "length buf = n" by (simp add: n_def)
    have st: "stage1 = fold (\<lambda>q rr. Option.bind rr (\<lambda>b.
                   perform F inp (input + q * (stride * inStride)) b (output + q * m)
                     (stride * r) inStride fs is_inverse))
             [0..<r] (Some buf)"
      using False by (simp only: stage1_def if_False)
    show ?thesis unfolding st
      by (rule fold_blocks [where r = r and i = r, OF call lb order_refl fits])
  qed
  then obtain b1 where b1: "stage1 = Some b1" "length b1 = n"
      "\<And>j. j < n \<Longrightarrow> j < output \<or> output + r * m \<le> j \<Longrightarrow> b1 ! j = buf ! j"
      "\<And>q u. q < r \<Longrightarrow> u < m \<Longrightarrow> b1 ! (output + q * m + u) = V q u"
    by blast
  define b' where "b' = (if r = 2 then butterfly2 b1 output stride m Wt
                  else if r = 4 then butterfly4 b1 output stride m Wt is_inverse
                  else butterflyGeneric F b1 output stride r m Wt)"
  have nz: "(r * m = 0) = False" using r0 m0 by simp
  have res: "perform F inp input buf output stride inStride (f # fs) is_inverse = Some b'"
    by (simp only: perform.simps Let_def r_def [symmetric] m_def [symmetric] stage1_def [symmetric]
          Wt_def [symmetric] nz if_False b1(1) option.case b'_def)
  from butterfly_dispatch [OF W [folded Wt_def] N N0 sg F b1(2) fits]
  have B: "length b' = n"
    "\<And>j. j < n \<Longrightarrow> (\<forall>u<m. \<forall>q<r. j \<noteq> output + u + q * m) \<Longrightarrow> b' ! j = b1 ! j"
    "\<And>u q1. u < m \<Longrightarrow> q1 < r \<Longrightarrow> b' ! (output + u + q1 * m) =
              (\<Sum>q<r. b1 ! (output + u + q * m) * theta sg (r * m) ((u + q1 * m) * q))"
    unfolding b'_def by blast+
  have 2: "b' ! j = buf ! j" if "j < length buf" "j < output \<or> output + L \<le> j" for j
  proof -
    from that(2) rm have o: "j < output \<or> output + r * m \<le> j" by simp
    have "\<forall>u<m. \<forall>q<r. j \<noteq> output + u + q * m"
      by (intro allI impI) (rule outside_block [OF o])
    from B(2) [OF that(1) [folded n_def] this] b1(3) [OF that(1) [folded n_def] o]
    show ?thesis by simp
  qed
  have 3: "b' ! (output + k) = sub_dft sg inp input (stride * inStride) L k" if "k < L" for k
  proof -
    define u where "u = k mod m"
    define q1 where "q1 = k div m"
    from split_index [OF that [folded rm] m0] have u: "u < m" and q1: "q1 < r" and k: "u + q1 * m = k"
      by (simp_all add: u_def q1_def)
    have "b' ! (output + u + q1 * m) = (\<Sum>q<r. b1 ! (output + u + q * m) * theta sg (r * m) ((u + q1 * m) * q))"
      by (rule B(3) [OF u q1])
    also have "\<dots> = (\<Sum>q<r. V q u * theta sg (r * m) ((u + q1 * m) * q))"
    proof (rule sum.cong [OF refl])
      fix q assume "q \<in> {..<r}"
      then have "q < r" by simp
      have ie: "output + u + q * m = output + q * m + u" by (simp only: add.assoc add.commute [of u])
      have "b1 ! (output + u + q * m) = V q u" unfolding ie by (rule b1(4) [OF \<open>q < r\<close> u])
      then show "b1 ! (output + u + q * m) * theta sg (r * m) ((u + q1 * m) * q) =
                 V q u * theta sg (r * m) ((u + q1 * m) * q)" by simp
    qed
    also have "\<dots> = sub_dft sg inp input step (r * m) (u + q1 * m)"
      unfolding V_def by (rule cooley_tukey [OF r0 m0 sg', symmetric])
    finally show ?thesis using k rm by (simp add: step_def add.assoc)
  qed
  from res B(1) 2 3 show ?case unfolding n_def by blast
qed

subsection \<open>The forward transform\<close>

lemma transform_correct:
  assumes N: "1 \<le> N" and fits: "N \<le> length buf"
  shows "\<exists>F. FFTComplex_new N = Some F \<and> csize F = N \<and> (\<forall>is_inverse inp. \<exists>out.
           perform F inp 0 buf 0 1 1 (factors F) is_inverse = Some out \<and>
           length out = length buf \<and>
           (\<forall>j<length buf. N \<le> j \<longrightarrow> out ! j = buf ! j) \<and>
           (\<forall>k<N. out ! k = sub_dft (tw_sign is_inverse) inp 0 1 N k))"
proof -
  from FFTComplex_new_wf [OF N] obtain F where
    F: "FFTComplex_new N = Some F" "csize F = N" "wf_factors N (factors F)"
       "twiddlesFwd F = fst (make_twiddles N)" "twiddlesInv F = snd (make_twiddles N)"
    by blast
  from N have N0: "0 < N" by simp
  have "\<exists>out. perform F inp 0 buf 0 1 1 (factors F) is_inverse = Some out \<and>
           length out = length buf \<and>
           (\<forall>j<length buf. N \<le> j \<longrightarrow> out ! j = buf ! j) \<and>
           (\<forall>k<N. out ! k = sub_dft (tw_sign is_inverse) inp 0 1 N k)" for is_inverse inp
  proof -
    have W: "\<forall>i<N. (if is_inverse then twiddlesInv F else twiddlesFwd F) ! i = theta (tw_sign is_inverse) N i"
      unfolding F(4,5) using twiddle_table [of _ N is_inverse] by blast
    have e: "N = 1 * N" by simp
    from fits have f: "0 + N \<le> length buf" by simp
    from perform_correct [OF W refl F(2) N0 F(3) e f, of inp 0 1]
    show ?thesis by simp
  qed
  with F(1,2) show ?thesis by blast
qed

lemma as_complex_length: "length (as_complex xs) = length xs div 2"
  by (simp add: as_complex_def)

lemma sub_dft_dft: "length x = N \<Longrightarrow> sub_dft (- 1) x 0 1 N k = dft x k"
  by (simp add: sub_dft_def dft_def dft_sum_def)

text \<open>
  Claim C1: for every size \<open>N \<ge> 1\<close>, every interleaved input of \<open>N\<close> complex samples and
  every output array of at least \<open>N\<close> elements, the constructor ends and \<^verbatim>\<open>forward\<close>
  returns; element \<open>k < N\<close> of the output is the unnormalised discrete Fourier
  transform \<open>\<Sum>n<N. x[n] * exp (- 2 * pi * i * k * n / N)\<close> of the input, and the rest of the
  output array is as before. It is the instance \<open>stride = 1\<close>, \<open>in_stride = 1\<close> of the
  contract of \<^verbatim>\<open>perform\<close>, lemma \<open>perform_correct\<close>.
\<close>

theorem forward_computes_dft:
  assumes "1 \<le> N" "length timeData = 2 * N" "N \<le> length freqData"
  shows "\<exists>F out. FFTComplex_new N = Some F \<and>
           FFTComplex_forward F timeData freqData = Some out \<and>
           length out = length freqData \<and>
           (\<forall>k<N. out ! k = dft (as_complex timeData) k) \<and>
           (\<forall>j<length freqData. N \<le> j \<longrightarrow> out ! j = freqData ! j)"
proof -
  from transform_correct [OF assms(1,3)] obtain F where
    F: "FFTComplex_new N = Some F"
    and T: "\<And>is_inverse inp. \<exists>out.
           perform F inp 0 freqData 0 1 1 (factors F) is_inverse = Some out \<and>
           length out = length freqData \<and>
           (\<forall>j<length freqData. N \<le> j \<longrightarrow> out ! j = freqData ! j) \<and>
           (\<forall>k<N. out ! k = sub_dft (tw_sign is_inverse) inp 0 1 N k)"
    by blast
  from T [of "as_complex timeData" False] obtain out where
    out: "perform F (as_complex timeData) 0 freqData 0 1 1 (factors F) False = Some out"
      "length out = length freqData"
      "\<forall>j<length freqData. N \<le> j \<longrightarrow> out ! j = freqData ! j"
      "\<forall>k<N. out ! k = sub_dft (tw_sign False) (as_complex timeData) 0 1 N k"
    by blast
  from assms(2) have "length (as_complex timeData) = N" by (simp add: as_complex_length)
  from sub_dft_dft [OF this] out(4) have "\<forall>k<N. out ! k = dft (as_complex timeData) k"
    by (simp add: tw_sign_def)
  with F out(1,2,3) show ?thesis unfolding FFTComplex_forward_def by blast
qed

lemma theta_eq_1_dvd:
  assumes N: "0 < N" and sg: "sg = 1 \<or> sg = - 1" and one: "theta sg N d = 1"
  shows "N dvd d"
proof -
  from one have "cos (sg * 2 * pi * real d / real N) = 1"
    by (simp add: theta_def complex_eq_iff)
  then obtain k :: int where k: "sg * 2 * pi * real d / real N = real_of_int k * 2 * pi"
    unfolding cos_one_2pi_int by blast
  with N have "(sg * real d) * (2 * pi) = (real_of_int k * real N) * (2 * pi)"
    by (simp add: field_simps)
  then have "sg * real d = real_of_int k * real N"
    by (simp only: mult_cancel_right) simp
  with sg have "real d = real_of_int (k * int N) \<or> real d = real_of_int (- k * int N)" by auto
  then have "int d = k * int N \<or> int d = - k * int N"
    by (metis of_int_of_nat_eq of_int_eq_iff)
  then have "int N dvd int d"
  proof
    assume "int d = k * int N"
    then show ?thesis by (simp only: dvd_triv_right)
  next
    assume "int d = - k * int N"
    then show ?thesis by (simp only: dvd_triv_right)
  qed
  then show ?thesis by (simp only: int_dvd_int_iff)
qed

lemma unity_sum:
  assumes N: "0 < N" and sg: "sg = 1 \<or> sg = - 1"
  shows "(\<Sum>n<N. theta sg N (d * n)) = (if N dvd d then of_nat N else 0)"
proof -
  define z where "z = theta sg N d"
  have p: "theta sg N (d * n) = z ^ n" for n
    unfolding z_def by (simp only: mult.commute [of d n] theta_mult)
  have zN: "z ^ N = 1"
    unfolding p [symmetric] by (simp only: theta_period [OF N sg])
  show ?thesis
  proof (cases "N dvd d")
    case True
    then obtain c where "d = c * N" by (metis dvd_def mult.commute)
    then have "z = 1" unfolding z_def by (simp only: theta_period [OF N sg])
    with True show ?thesis by (simp add: p)
  next
    case False
    with theta_eq_1_dvd [OF N sg, of d] have "z \<noteq> 1" unfolding z_def by blast
    then have "(\<Sum>n<N. z ^ n) = (z ^ N - 1) / (z - 1)" by (rule geometric_sum)
    with False zN show ?thesis by (simp add: p)
  qed
qed

lemma dft_ones:
  assumes "0 < N" "\<forall>n<N. x ! n = 1" "length x = N" "k < N"
  shows "dft x k = (if k = 0 then of_nat N else 0)"
proof -
  have "dft x k = (\<Sum>n<N. x ! n * theta (- 1) N (k * n))"
    by (simp add: dft_def dft_sum_def theta_def assms(3) mult.assoc)
  also have "\<dots> = (\<Sum>n<N. theta (- 1) N (k * n))"
    by (rule sum.cong) (simp_all add: assms(2))
  also have "\<dots> = (if N dvd k then of_nat N else 0)"
    by (rule unity_sum [OF assms(1)]) simp
  also have "N dvd k \<longleftrightarrow> k = 0" using assms(4) by (auto dest: dvd_imp_le)
  finally show ?thesis .
qed

lemma as_complex_ones: "as_complex [1, 0, 1, 0, 1, 0, 1, 0] = [1, 1, 1, 1]"
  by (simp add: as_complex_def upt_rec complex_eq_iff)

lemma list4_eq:
  assumes "length xs = 4" "xs ! 0 = a" "xs ! 1 = b" "xs ! 2 = c" "xs ! 3 = d"
  shows "xs = [a, b, c, d]"
proof (rule nth_equalityI)
  show "length xs = length [a, b, c, d]" using assms(1) by simp
next
  fix i assume "i < length xs"
  with assms(1) consider "i = 0" | "i = 1" | "i = 2" | "i = 3" by linarith
  then show "xs ! i = [a, b, c, d] ! i" using assms(2-) by cases simp_all
qed

text \<open>Claim C1 at \<open>N = 4\<close>: for the input \<open>(1,0, 1,0, 1,0, 1,0)\<close> the output is \<open>((4,0), (0,0), (0,0), (0,0))\<close>.\<close>

theorem forward_computes_dft_witness:
  "(1::nat) \<le> 4 \<and> length [1, 0, 1, 0, 1, 0, 1, 0 :: real] = 2 * 4 \<and>
   4 \<le> length [0, 0, 0, 0 :: complex] \<and>
   (\<exists>F. FFTComplex_new 4 = Some F \<and>
        FFTComplex_forward F [1, 0, 1, 0, 1, 0, 1, 0] [0, 0, 0, 0] = Some [4, 0, 0, 0])"
proof -
  have h: "(1::nat) \<le> 4" "length [1, 0, 1, 0, 1, 0, 1, 0 :: real] = 2 * 4"
    "4 \<le> length [0, 0, 0, 0 :: complex]" by simp_all
  from forward_computes_dft [OF h] obtain F out where
    F: "FFTComplex_new 4 = Some F"
    and out: "FFTComplex_forward F [1, 0, 1, 0, 1, 0, 1, 0] [0, 0, 0, 0] = Some out"
      "length out = length [0, 0, 0, 0 :: complex]"
      "\<forall>k<4. out ! k = dft (as_complex [1, 0, 1, 0, 1, 0, 1, 0]) k"
    by blast
  have ones: "\<forall>n<4. [1, 1, 1, 1 :: complex] ! n = 1"
  proof (intro allI impI)
    fix n :: nat assume "n < 4"
    then consider "n = 0" | "n = 1" | "n = 2" | "n = 3" by linarith
    then show "[1, 1, 1, 1 :: complex] ! n = 1" by cases simp_all
  qed
  have d: "dft [1, 1, 1, 1] k = (if k = 0 then of_nat 4 else 0)" if "k < 4" for k
    by (rule dft_ones [OF _ ones _ that]) simp_all
  from out(3) have v: "out ! k = (if k = 0 then 4 else 0)" if "k < 4" for k
    using that d [OF that] by (simp add: as_complex_ones)
  have "out = [4, 0, 0, 0]"
    by (rule list4_eq) (use out(2) v in simp_all)
  with F out(1) h show ?thesis by blast
qed

subsection \<open>Inverse after forward\<close>

lemma theta_neg: "theta (- sg) N a * theta sg N a = 1"
  by (simp add: theta_def cis_mult)

lemma theta_nonzero: "theta sg N a \<noteq> 0"
  by (simp add: theta_def)

lemma theta_complement:
  assumes N: "0 < N" and sg: "sg = 1 \<or> sg = - 1" and n: "n \<le> N"
  shows "theta (- sg) N (n * k) = theta sg N ((N - n) * k)"
proof -
  have "(N - n) * k + n * k = k * N" using n by (simp add: algebra_simps flip: add_mult_distrib)
  then have "theta sg N ((N - n) * k) * theta sg N (n * k) = theta sg N (k * N)"
    by (simp only: theta_add [symmetric])
  also have "\<dots> = 1" by (rule theta_period [OF N sg])
  finally have "theta sg N ((N - n) * k) * theta sg N (n * k) = theta (- sg) N (n * k) * theta sg N (n * k)"
    by (simp only: theta_neg)
  then show ?thesis using theta_nonzero [of sg N "n * k"] by simp
qed

lemma dft_inversion:
  assumes N: "0 < N" and j: "j < N"
  shows "(\<Sum>k<N. (\<Sum>n<N. x n * theta (- 1) N (k * n)) * theta 1 N (j * k)) = of_nat N * x j"
proof -
  have sg: "(1::real) = 1 \<or> (1::real) = - 1" by simp
  have inner: "(\<Sum>k<N. theta (- 1) N (k * n) * theta 1 N (j * k)) = (if n = j then of_nat N else 0)"
    if n: "n < N" for n
  proof -
    from n have nN: "n \<le> N" by simp
    have "theta (- 1) N (k * n) * theta 1 N (j * k) = theta 1 N ((N - n + j) * k)" for k
    proof -
      have "theta (- 1) N (k * n) = theta 1 N ((N - n) * k)"
        using theta_complement [OF N sg nN, of k] by (simp add: mult.commute)
      then show ?thesis by (simp add: theta_add [symmetric] algebra_simps)
    qed
    then have "(\<Sum>k<N. theta (- 1) N (k * n) * theta 1 N (j * k)) = (\<Sum>k<N. theta 1 N ((N - n + j) * k))"
      by simp
    also have "\<dots> = (if N dvd (N - n + j) then of_nat N else 0)"
      by (rule unity_sum [OF N sg])
    also have "N dvd (N - n + j) \<longleftrightarrow> n = j"
    proof
      assume "N dvd (N - n + j)"
      then obtain c where c: "N - n + j = N * c" by (auto elim: dvdE)
      from n j have "0 < N - n + j" "N - n + j < N * 2" by simp_all
      with c have "0 < N * c" "N * c < N * 2" by simp_all
      then have "0 < c" "c < 2" using N by simp_all
      then have "c = 1" by simp
      with c n show "n = j" by simp
    next
      assume "n = j"
      with j show "N dvd (N - n + j)" by simp
    qed
    finally show ?thesis .
  qed
  have "(\<Sum>k<N. (\<Sum>n<N. x n * theta (- 1) N (k * n)) * theta 1 N (j * k)) =
        (\<Sum>k<N. \<Sum>n<N. x n * (theta (- 1) N (k * n) * theta 1 N (j * k)))"
    by (simp add: sum_distrib_right mult.assoc)
  also have "\<dots> = (\<Sum>n<N. \<Sum>k<N. x n * (theta (- 1) N (k * n) * theta 1 N (j * k)))"
    by (rule sum.swap)
  also have "\<dots> = (\<Sum>n<N. x n * (\<Sum>k<N. theta (- 1) N (k * n) * theta 1 N (j * k)))"
    by (simp add: sum_distrib_left)
  also have "\<dots> = (\<Sum>n<N. x n * (if n = j then of_nat N else 0))"
    by (rule sum.cong [OF refl]) (simp add: inner)
  also have "\<dots> = (\<Sum>n<N. if n = j then x n * of_nat N else 0)"
    by (rule sum.cong [OF refl]) simp
  also have "\<dots> = x j * of_nat N" using j by (simp add: sum.delta)
  finally show ?thesis by (simp add: mult.commute)
qed

lemma interleave_upt:
  "concat (map (\<lambda>j. [g (2 * j), g (2 * j + 1)]) [0..<N]) = map g [0..<2 * N]"
proof (induction N)
  case 0
  show ?case by simp
next
  case (Suc N)
  have "[0..<2 * Suc N] = [0..<2 * N] @ [2 * N, 2 * N + 1]" by simp
  with Suc show ?case by simp
qed

lemma as_complex_nth:
  "j < length xs div 2 \<Longrightarrow> as_complex xs ! j = Complex (xs ! (2 * j)) (xs ! (2 * j + 1))"
  by (simp add: as_complex_def)

lemma as_real_scaled:
  assumes len: "length out = N" "length t = 2 * N"
    and v: "\<forall>j<N. out ! j = of_nat N * as_complex t ! j"
  shows "as_real out = map (\<lambda>v. real N * v) t"
proof -
  have "out = map (\<lambda>j. of_nat N * as_complex t ! j) [0..<N]"
    by (rule nth_equalityI) (use len v in simp_all)
  also have "\<dots> = map (\<lambda>j. Complex (real N * t ! (2 * j)) (real N * t ! (2 * j + 1))) [0..<N]"
    by (rule map_cong [OF refl]) (use len in \<open>simp add: as_complex_nth complex_eq_iff\<close>)
  finally have "as_real out = concat (map (\<lambda>j. [real N * t ! (2 * j), real N * t ! (2 * j + 1)]) [0..<N])"
    by (simp add: as_real_def comp_def)
  also have "\<dots> = map (\<lambda>i. real N * t ! i) [0..<2 * N]"
    by (rule interleave_upt)
  also have "\<dots> = map (\<lambda>v. real N * v) t"
    using len(2) by (intro nth_equalityI) simp_all
  finally show ?thesis .
qed

text \<open>
  Claim C2: for every size \<open>N \<ge> 1\<close> and every interleaved signal of \<open>N\<close> complex samples,
  \<^verbatim>\<open>forward\<close> followed by \<^verbatim>\<open>inverse\<close> returns the signal multiplied by \<open>N\<close>, sample by sample:
  neither transform normalises.
\<close>

theorem inverse_forward_scales:
  assumes "1 \<le> N" "length timeData = 2 * N" "N \<le> length freqData" "length timeOut = 2 * N"
  shows "\<exists>F freq. FFTComplex_new N = Some F \<and>
           FFTComplex_forward F timeData freqData = Some freq \<and>
           FFTComplex_inverse F freq timeOut = Some (map (\<lambda>v. real N * v) timeData)"
proof -
  define x where "x = as_complex timeData"
  from assms(1) have N0: "0 < N" by simp
  from assms(4) have lo: "N \<le> length (as_complex timeOut)" "length (as_complex timeOut) = N"
    by (simp_all add: as_complex_length)
  from transform_correct [OF assms(1,3)] obtain F where
    F: "FFTComplex_new N = Some F"
    and T: "\<And>is_inverse inp. \<exists>out.
           perform F inp 0 freqData 0 1 1 (factors F) is_inverse = Some out \<and>
           length out = length freqData \<and>
           (\<forall>j<length freqData. N \<le> j \<longrightarrow> out ! j = freqData ! j) \<and>
           (\<forall>k<N. out ! k = sub_dft (tw_sign is_inverse) inp 0 1 N k)"
    by blast
  from transform_correct [OF assms(1) lo(1)] F have
    T': "\<And>is_inverse inp. \<exists>out.
           perform F inp 0 (as_complex timeOut) 0 1 1 (factors F) is_inverse = Some out \<and>
           length out = length (as_complex timeOut) \<and>
           (\<forall>k<N. out ! k = sub_dft (tw_sign is_inverse) inp 0 1 N k)"
    by fastforce
  from T [of x False] obtain freq where
    freq: "perform F x 0 freqData 0 1 1 (factors F) False = Some freq"
      "\<forall>k<N. freq ! k = sub_dft (tw_sign False) x 0 1 N k"
    by blast
  from T' [of freq True] obtain out where
    out: "perform F freq 0 (as_complex timeOut) 0 1 1 (factors F) True = Some out"
      "length out = length (as_complex timeOut)"
      "\<forall>j<N. out ! j = sub_dft (tw_sign True) freq 0 1 N j"
    by blast
  have fk: "freq ! k = (\<Sum>n<N. x ! n * theta (- 1) N (k * n))" if "k < N" for k
    using freq(2) that by (simp add: sub_dft_theta tw_sign_def)
  have "out ! j = of_nat N * x ! j" if "j < N" for j
  proof -
    from out(3) that have "out ! j = (\<Sum>k<N. freq ! k * theta 1 N (j * k))"
      by (simp add: sub_dft_theta tw_sign_def)
    also have "\<dots> = (\<Sum>k<N. (\<Sum>n<N. x ! n * theta (- 1) N (k * n)) * theta 1 N (j * k))"
      by (rule sum.cong [OF refl]) (simp add: fk)
    also have "\<dots> = of_nat N * x ! j" by (rule dft_inversion [OF N0 that])
    finally show ?thesis .
  qed
  then have "\<forall>j<N. out ! j = of_nat N * as_complex timeData ! j" by (simp add: x_def)
  from as_real_scaled [OF _ assms(2) this] out(2) lo(2)
  have "as_real out = map (\<lambda>v. real N * v) timeData" by simp
  with F freq(1) out(1) show ?thesis
    unfolding FFTComplex_forward_def FFTComplex_inverse_def x_def by simp
qed

text \<open>Claim C2 at \<open>N = 2\<close>: the signal \<open>(1,2, 3,4)\<close> comes back as \<open>(2,4, 6,8)\<close>.\<close>

theorem inverse_forward_scales_witness:
  "(1::nat) \<le> 2 \<and> length [1, 2, 3, 4 :: real] = 2 * 2 \<and> 2 \<le> length [0, 0 :: complex] \<and>
   length [0, 0, 0, 0 :: real] = 2 * 2 \<and>
   (\<exists>F freq. FFTComplex_new 2 = Some F \<and>
        FFTComplex_forward F [1, 2, 3, 4] [0, 0] = Some freq \<and>
        FFTComplex_inverse F freq [0, 0, 0, 0] = Some [2, 4, 6, 8])"
proof -
  have h: "(1::nat) \<le> 2" "length [1, 2, 3, 4 :: real] = 2 * 2" "2 \<le> length [0, 0 :: complex]"
    "length [0, 0, 0, 0 :: real] = 2 * 2" by simp_all
  from inverse_forward_scales [OF h] h show ?thesis by simp
qed

subsection \<open>The real forward transform\<close>

lemma FFTReal_new_Inr:
  assumes "FFTReal_new M = Some (Inr R)"
  shows "rsize R = M div 2" "FFTComplex_new (M div 2) = Some (fft R)"
    "twiddlesCplx R = map (\<lambda>i. cexp (- pi * (real (i + 1) / real (M div 2) + 0.5))) [0..<M div 2]"
  using assms
  by (auto simp: FFTReal_new_def halve_size_def drop_bit_eq_div Let_def
      split: bind_splits if_splits)

lemma real_forward_step_length: "length (real_forward_step R k b) = length b"
  by (simp add: real_forward_step_def Let_def)

lemma real_inverse_step_length: "length (real_inverse_step R k b) = length b"
  by (simp add: real_inverse_step_def Let_def)

lemma fold_length_preserved:
  assumes "\<And>k b. length (f k b) = length b"
  shows "length (fold f ks b) = length b"
  by (induction ks arbitrary: b) (simp_all add: assms)

lemma memset_zero_props:
  assumes "off + n \<le> length b"
  shows "length (memset_zero b off n) = length b"
    "\<And>j. j < n \<Longrightarrow> memset_zero b off n ! (off + j) = 0"
  using copy_loop [OF assms, of "\<lambda>_. 0"] by (simp_all add: memset_zero_def)

lemma FFTReal_forward_zeroes_bin_N:
  assumes R: "FFTReal_new M = Some (Inr R)" and N: "1 \<le> rsize R"
    and t: "length timeData = 2 * rsize R" and f: "2 * rsize R \<le> length freqData"
  shows "\<exists>out. FFTReal_forward R timeData freqData = Some out \<and>
           length out = length freqData \<and> out ! rsize R = 0"
proof -
  define N where "N = rsize R"
  from FFTReal_new_Inr [OF R] have c: "FFTComplex_new N = Some (fft R)" by (simp add: N_def)
  from f have fN: "N \<le> length freqData" by (simp add: N_def)
  from transform_correct [OF N [folded N_def] fN] c obtain out1 where
    o1: "perform (fft R) (as_complex timeData) 0 freqData 0 1 1 (factors (fft R)) False = Some out1"
      "length out1 = length freqData"
    by fastforce
  define tdc where "tdc = out1 ! 0"
  define b4 where "b4 = fold (real_forward_step R) [1..<N div 2 + 1]
                          ((out1[0 := Complex (Re tdc + Im tdc) 0])[N := Complex (Re tdc - Im tdc) 0])"
  have l4: "length b4 = length freqData"
    unfolding b4_def by (simp add: fold_length_preserved [OF real_forward_step_length] o1(2))
  have res: "FFTReal_forward R timeData freqData = Some (memset_zero b4 N N)"
    unfolding FFTReal_forward_def FFTComplex_forward_def o1(1)
    by (simp add: Let_def b4_def tdc_def N_def)
  from f l4 have fit: "N + N \<le> length b4" by (simp add: N_def)
  from N have "0 < N" by (simp add: N_def)
  from memset_zero_props [OF fit] this have "length (memset_zero b4 N N) = length b4"
    "memset_zero b4 N N ! (N + 0) = 0" by blast+
  with res l4 show ?thesis by (simp add: N_def)
qed

lemma fold_nth_preserved:
  assumes "\<And>k b. k \<in> set ks \<Longrightarrow> f k b ! j = b ! j"
  shows "fold f ks b ! j = b ! j"
  using assms by (induction ks arbitrary: b) simp_all

lemma real_forward_step_other:
  "j \<noteq> k \<Longrightarrow> j \<noteq> rsize R - k \<Longrightarrow> real_forward_step R k b ! j = b ! j"
  by (simp add: real_forward_step_def Let_def)

text \<open>
  Before the final \<^verbatim>\<open>memset\<close>, element \<open>N\<close> of the output holds the Nyquist bin
  \<open>(X[0].re - X[0].im, 0)\<close>; the \<^verbatim>\<open>memset\<close> starts at element \<open>N\<close> and clears it.
\<close>

lemma FFTReal_forward_before_memset:
  assumes R: "FFTReal_new M = Some (Inr R)" and N: "1 \<le> rsize R"
    and t: "length timeData = 2 * rsize R" and f: "2 * rsize R \<le> length freqData"
  shows "\<exists>b. FFTReal_forward R timeData freqData = Some (memset_zero b (rsize R) (rsize R)) \<and>
           b ! rsize R = Complex (Re (dft (as_complex timeData) 0) - Im (dft (as_complex timeData) 0)) 0"
proof -
  define N where "N = rsize R"
  from FFTReal_new_Inr [OF R] have c: "FFTComplex_new N = Some (fft R)" by (simp add: N_def)
  from f have fN: "N \<le> length freqData" by (simp add: N_def)
  from N have N0: "0 < N" by (simp add: N_def)
  from transform_correct [OF N [folded N_def] fN] c obtain out1 where
    o1: "perform (fft R) (as_complex timeData) 0 freqData 0 1 1 (factors (fft R)) False = Some out1"
      "length out1 = length freqData"
      "\<forall>k<N. out1 ! k = sub_dft (tw_sign False) (as_complex timeData) 0 1 N k"
    by fastforce
  from t have "length (as_complex timeData) = N" by (simp add: as_complex_length N_def)
  from sub_dft_dft [OF this] o1(3) N0 have x0: "out1 ! 0 = dft (as_complex timeData) 0"
    by (simp add: tw_sign_def)
  define tdc where "tdc = out1 ! 0"
  define b3 where "b3 = (out1[0 := Complex (Re tdc + Im tdc) 0])[N := Complex (Re tdc - Im tdc) 0]"
  define b4 where "b4 = fold (real_forward_step R) [1..<N div 2 + 1] b3"
  have res: "FFTReal_forward R timeData freqData = Some (memset_zero b4 N N)"
    unfolding FFTReal_forward_def FFTComplex_forward_def o1(1)
    by (simp add: Let_def b4_def b3_def tdc_def N_def)
  have "b4 ! N = b3 ! N" unfolding b4_def
  proof (rule fold_nth_preserved)
    fix k b assume "k \<in> set [1..<N div 2 + 1]"
    then have "1 \<le> k" "k \<le> N div 2" by auto
    with N0 have "N \<noteq> k" "N \<noteq> rsize R - k" by (simp_all add: N_def)
    then show "real_forward_step R k b ! N = b ! N" by (rule real_forward_step_other)
  qed
  also from f o1(2) N0 have "b3 ! N = Complex (Re tdc - Im tdc) 0" by (simp add: b3_def N_def)
  finally show ?thesis using res by (auto simp: tdc_def x0 N_def)
qed

lemma FFTReal_new_8: "\<exists>R. FFTReal_new 8 = Some (Inr R) \<and> rsize R = 4"
  by (simp add: FFTReal_new_def halve_size_def FFTComplex_new_def factor_loop_4 drop_bit_eq_div
        split: prod.split)

lemma as_complex_alt: "as_complex [1, - 1, 1, - 1, 1, - 1, 1, - 1] = [Complex 1 (- 1), Complex 1 (- 1), Complex 1 (- 1), Complex 1 (- 1)]"
  by (simp add: as_complex_def upt_rec)

text \<open>
  Claim C3 at \<open>M = 8\<close> and the input \<open>(1,-1,1,-1,1,-1,1,-1)\<close>: bin 4 of the output is
  \<open>(0,0)\<close> when \<^verbatim>\<open>forward\<close> returns, where the claim has \<open>(X[0].re - X[0].im, 0) = (8,0)\<close>.
  By \<open>FFTReal_forward_zeroes_bin_N\<close> bin \<open>N\<close> is zero for every size and input.
\<close>

theorem real_forward_nyquist_zeroed:
  "map_option (\<lambda>out. out ! 4) (real_forward_at 8 [1, - 1, 1, - 1, 1, - 1, 1, - 1] (replicate 8 0)) = Some 0 \<and>
   Complex (Re (dft (as_complex [1, - 1, 1, - 1, 1, - 1, 1, - 1]) 0) -
            Im (dft (as_complex [1, - 1, 1, - 1, 1, - 1, 1, - 1]) 0)) 0 = 8"
proof
  from FFTReal_new_8 obtain R where R: "FFTReal_new 8 = Some (Inr R)" "rsize R = 4" by blast
  from FFTReal_forward_zeroes_bin_N [OF R(1), of "[1, - 1, 1, - 1, 1, - 1, 1, - 1]" "replicate 8 0"] R(2)
  obtain out where "FFTReal_forward R [1, - 1, 1, - 1, 1, - 1, 1, - 1] (replicate 8 0) = Some out"
    "out ! 4 = 0" by auto
  with R(1) show "map_option (\<lambda>out. out ! 4) (real_forward_at 8 [1, - 1, 1, - 1, 1, - 1, 1, - 1] (replicate 8 0)) = Some 0"
    by (simp add: real_forward_at_def)
next
  have "dft (as_complex [1, - 1, 1, - 1, 1, - 1, 1, - 1]) 0 = Complex 4 (- 4)"
    unfolding as_complex_alt by (simp add: dft_def dft_sum_def sum_lessThan_4 complex_eq_iff)
  then show "Complex (Re (dft (as_complex [1, - 1, 1, - 1, 1, - 1, 1, - 1]) 0) -
            Im (dft (as_complex [1, - 1, 1, - 1, 1, - 1, 1, - 1]) 0)) 0 = 8"
    by (simp add: complex_eq_iff)
qed

subsection \<open>The real inverse transform\<close>

lemma FFTComplex_inverse_returns:
  assumes c: "FFTComplex_new N = Some F" and N: "1 \<le> N" and t: "length timeData = 2 * N"
  shows "\<exists>t1. FFTComplex_inverse F buf timeData = Some t1 \<and> length t1 = 2 * N"
proof -
  from t have l: "N \<le> length (as_complex timeData)" "length (as_complex timeData) = N"
    by (simp_all add: as_complex_length)
  from transform_correct [OF N l(1)] c obtain out where
    o: "perform F buf 0 (as_complex timeData) 0 1 1 (factors F) True = Some out"
       "length out = length (as_complex timeData)"
    by fastforce
  have "length (as_real out) = 2 * length out"
    by (induction out) (simp_all add: as_real_def)
  with o l(2) show ?thesis by (simp add: FFTComplex_inverse_def)
qed

lemma spec_hermitian_step_eq:
  "spec_hermitian_step (rsize R) (twiddlesCplx R) k Y = real_inverse_step R k Y"
  by (simp add: spec_hermitian_step_def real_inverse_step_def Let_def cmul_times)

lemma spec_scratch_eq:
  assumes "rsize R \<le> length freqData"
  shows "spec_scratch (rsize R) freqData = inverse_tempBuffer R freqData False"
proof -
  have "take (rsize R - 1) (drop 1 freqData) = map (\<lambda>j. freqData ! (1 + j)) [0..<rsize R - 1]"
    by (rule nth_equalityI) (use assms in auto)
  then show ?thesis by (simp add: spec_scratch_def inverse_tempBuffer_def)
qed

lemma spec_real_inverse_eq:
  assumes "rsize R \<le> length freqData"
  shows "FFTReal_inverse R freqData timeData False =
         map_option (\<lambda>t. (freqData, t)) (spec_real_inverse R freqData timeData)"
proof -
  have "(\<lambda>k. spec_hermitian_step (rsize R) (twiddlesCplx R) k) = real_inverse_step R"
    by (intro ext) (rule spec_hermitian_step_eq)
  then show ?thesis
    by (cases "FFTComplex_inverse (fft R)
          (fold (real_inverse_step R) [1..<rsize R div 2 + 1] (inverse_tempBuffer R freqData False)) timeData")
       (simp_all add: FFTReal_inverse_def spec_real_inverse_def Let_def spec_scratch_eq [OF assms])
qed

text \<open>
  Claim C9: for a real transform that was constructed, of half size \<open>N \<ge> 1\<close>, and an
  output array of \<open>2 * N\<close> samples, \<^verbatim>\<open>inverse\<close> with \<open>in_place = false\<close> returns, and the
  input array is after the call what it was before, whatever it holds.
\<close>

theorem inverse_scratch_leaves_input:
  assumes "FFTReal_new M = Some (Inr R)" "1 \<le> rsize R" "length timeData = 2 * rsize R"
  shows "\<exists>t. FFTReal_inverse R freqData timeData False = Some (freqData, t)"
proof -
  from FFTReal_new_Inr [OF assms(1)] have c: "FFTComplex_new (rsize R) = Some (fft R)" by simp
  define buf where "buf = fold (real_inverse_step R) [1..<rsize R div 2 + 1]
                           (inverse_tempBuffer R freqData False)"
  from FFTComplex_inverse_returns [OF c assms(2,3), of buf] obtain t where
    "FFTComplex_inverse (fft R) buf timeData = Some t" by blast
  then have "FFTReal_inverse R freqData timeData False = Some (freqData, t)"
    unfolding FFTReal_inverse_def Let_def buf_def [symmetric] by simp
  then show ?thesis ..
qed

text \<open>
  The sibling path: for a real transform that was constructed, of half size \<open>N \<ge> 1\<close>,
  an input of \<open>N + 1\<close> bins and \<open>in_place = false\<close>, \<^verbatim>\<open>inverse\<close> returns what the three
  steps of the specification give: the scratch \<open>Y\<close> with
  \<open>Y[0] = (in[0].re + in[N].re, in[0].re - in[N].re)\<close> and \<open>Y[1..N) = in[1..N)\<close>, the
  Hermitian pass with the conjugate twiddles, the complex inverse transform into the
  \<open>2 * N\<close> output samples.
\<close>

lemma inverse_scratch_follows_spec:
  assumes "FFTReal_new M = Some (Inr R)" "1 \<le> rsize R" "length timeData = 2 * rsize R"
    "length freqData = rsize R + 1"
  shows "\<exists>t. FFTReal_inverse R freqData timeData False = Some (freqData, t) \<and>
             spec_real_inverse R freqData timeData = Some t \<and> length t = 2 * rsize R"
proof -
  from FFTReal_new_Inr [OF assms(1)] have c: "FFTComplex_new (rsize R) = Some (fft R)" by simp
  from assms(4) have l: "rsize R \<le> length freqData" by simp
  from FFTComplex_inverse_returns [OF c assms(2,3)] obtain t where
    "spec_real_inverse R freqData timeData = Some t" "length t = 2 * rsize R"
    unfolding spec_real_inverse_def Let_def by blast
  with spec_real_inverse_eq [OF l, of timeData] show ?thesis by simp
qed

lemma FFTReal_new_4: "\<exists>R. FFTReal_new 4 = Some (Inr R) \<and> rsize R = 2 \<and>
    twiddlesCplx R = map (\<lambda>i. cexp (- pi * (real (i + 1) / real (2::nat) + 0.5))) [0..<2]"
  by (simp add: FFTReal_new_def halve_size_def FFTComplex_new_def factor_loop_2 drop_bit_eq_div
        split: prod.split)

lemma FFTComplex_new_2:
  "FFTComplex_new 2 = Some \<lparr>csize = 2, factors = [\<lparr>radix = 2, flength = 1\<rparr>],
       twiddlesFwd = fst (make_twiddles 2), twiddlesInv = snd (make_twiddles 2)\<rparr>"
  by (simp add: FFTComplex_new_def factor_loop_2 split: prod.split)

lemma twiddlesInv_2_0: "snd (make_twiddles 2) ! 0 = 1"
  using twiddle_table [of 0 2 True] by (simp add: theta_0)

lemma upt_2: "[0..<2] = [0, 1]"
  by (simp add: upt_rec)

lemma inverse_size_2:
  assumes "FFTComplex_new 2 = Some F"
  shows "FFTComplex_inverse F buf [0, 0, 0, 0] =
         Some [Re (buf ! 0 + buf ! 1), Im (buf ! 0 + buf ! 1), Re (buf ! 0 - buf ! 1), Im (buf ! 0 - buf ! 1)]"
proof -
  from assms have F: "F = \<lparr>csize = 2, factors = [\<lparr>radix = 2, flength = 1\<rparr>],
       twiddlesFwd = fst (make_twiddles 2), twiddlesInv = snd (make_twiddles 2)\<rparr>"
    by (simp add: FFTComplex_new_2)
  have ac: "as_complex [0, 0, 0, 0] = [0, 0]"
    by (simp add: as_complex_def upt_2 complex_eq_iff)
  show ?thesis
    unfolding FFTComplex_inverse_def F ac
    by (simp add: perform.simps Let_def upt_2 butterfly2_def butterfly2_step_def cmul_times
          twiddlesInv_2_0 as_real_def)
qed

lemma upt_1_2: "[1..<2 div 2 + 1] = [1::nat]"
  by (simp add: upt_rec)

lemma FFTReal_new_4_twiddle:
  "\<exists>R. FFTReal_new 4 = Some (Inr R) \<and> rsize R = 2 \<and> twiddlesCplx R ! 0 = - 1"
proof -
  from FFTReal_new_4 obtain R where R: "FFTReal_new 4 = Some (Inr R)" "rsize R = 2"
    "twiddlesCplx R = map (\<lambda>i. cexp (- pi * (real (i + 1) / real (2::nat) + 0.5))) [0..<2]"
    by blast
  have "twiddlesCplx R ! 0 = - 1"
    unfolding R(3) by (simp add: upt_2 cexp_cis cis_def complex_eq_iff)
  with R show ?thesis by blast
qed

lemma lessThan_4_set: "{..<4::nat} = {0, 1, 2, 3}"
  by auto

text \<open>The bins \<open>((10,0), (-2,2), (-2,0))\<close> are the spectrum of the real signal \<open>(1,2,3,4)\<close>.\<close>

lemma spectrum_1234:
  "dft [1, 2, 3, 4] 0 = 10 \<and> dft [1, 2, 3, 4] 1 = Complex (- 2) 2 \<and> dft [1, 2, 3, 4] 2 = - 2"
proof -
  have c: "cos (pi * 3 / 2) = 0" "sin (pi * 3 / 2) = - 1"
    using cos_3over2_pi sin_3over2_pi by (simp_all add: field_simps)
  have p: "cos (3 * pi) = - 1" "sin (3 * pi) = 0"
    using cos_npi [of 3] sin_npi [of 3] by simp_all
  show ?thesis
    by (simp add: dft_def dft_sum_def lessThan_4_set cis_def complex_eq_iff c p)
qed

text \<open>
  Claim C4: \<^verbatim>\<open>inverse\<close> builds the scratch \<open>Y\<close> with \<open>Y[0] = (in[0].re + in[N].re,
  in[0].re - in[N].re)\<close> for every value of the \<open>in_place\<close> flag. The code does so only
  under \<^verbatim>\<open>if (! inPlace)\<close>: with \<open>in_place = true\<close> the Hermitian pass and the complex
  inverse run on the input, whose element 0 is never folded with bin \<open>N\<close>. At \<open>M = 4\<close> and
  the spectrum \<open>((10,0), (-2,2), (-2,0))\<close> of \<open>(1,2,3,4)\<close> the call in place returns
  \<open>(6,-4,14,4)\<close>; the call with the scratch, and the three steps of the specification,
  return \<open>(4,8,12,16)\<close>, which is \<open>M\<close> times the signal.
\<close>

theorem inverse_in_place_skips_dc_fold:
  "map_option snd (real_inverse_at 4 [10, Complex (- 2) 2, - 2] [0, 0, 0, 0] True)
     = Some [6, - 4, 14, 4] \<and>
   map_option snd (real_inverse_at 4 [10, Complex (- 2) 2, - 2] [0, 0, 0, 0] False)
     = Some [4, 8, 12, 16] \<and>
   spec_real_inverse_at 4 [10, Complex (- 2) 2, - 2] [0, 0, 0, 0] = Some [4, 8, 12, 16]"
proof -
  from FFTReal_new_4_twiddle obtain R where R: "FFTReal_new 4 = Some (Inr R)" "rsize R = 2"
    "twiddlesCplx R ! 0 = - 1" by blast
  from FFTReal_new_Inr(2) [OF R(1)] have c: "FFTComplex_new 2 = Some (fft R)" by simp
  have a: "FFTReal_inverse R [10, Complex (- 2) 2, - 2] [0, 0, 0, 0] True
           = Some ([10, Complex (- 4) (- 4), - 2], [6, - 4, 14, 4])"
    by (simp add: FFTReal_inverse_def Let_def inverse_tempBuffer_def R(2) upt_1_2
          real_inverse_step_def cmul_times inverse_size_2 [OF c] R(3) complex_eq_iff)
  have b: "FFTReal_inverse R [10, Complex (- 2) 2, - 2] [0, 0, 0, 0] False
           = Some ([10, Complex (- 2) 2, - 2], [4, 8, 12, 16])"
    by (simp add: FFTReal_inverse_def Let_def inverse_tempBuffer_def R(2) upt_1_2
          real_inverse_step_def cmul_times inverse_size_2 [OF c] R(3) complex_eq_iff)
  have l: "rsize R \<le> length [10, Complex (- 2) 2, - 2]" by (simp add: R(2))
  from b spec_real_inverse_eq [OF l, of "[0, 0, 0, 0]"]
  have d: "spec_real_inverse R [10, Complex (- 2) 2, - 2] [0, 0, 0, 0] = Some [4, 8, 12, 16]"
    by (cases "spec_real_inverse R [10, Complex (- 2) 2, - 2] [0, 0, 0, 0]") simp_all
  from a b d R(1) show ?thesis
    by (simp add: real_inverse_at_def spec_real_inverse_at_def)
qed

text \<open>Claim C9 at \<open>M = 4\<close>.\<close>

theorem inverse_scratch_leaves_input_witness:
  "\<exists>R. FFTReal_new 4 = Some (Inr R) \<and> 1 \<le> rsize R \<and>
       length [0, 0, 0, 0 :: real] = 2 * rsize R \<and>
       (\<exists>t. FFTReal_inverse R [1, 0, 1] [0, 0, 0, 0] False = Some ([1, 0, 1], t))"
proof -
  from FFTReal_new_4 obtain R where R: "FFTReal_new 4 = Some (Inr R)" "rsize R = 2" by blast
  have h: "1 \<le> rsize R" "length [0, 0, 0, 0 :: real] = 2 * rsize R" by (simp_all add: R(2))
  from inverse_scratch_leaves_input [OF R(1) h] R(1) h show ?thesis by blast
qed

subsection \<open>Rounding to \<^verbatim>\<open>double\<close>\<close>

lemma round_even_of_int [simp]: "round_even (of_int n) = n"
  by (simp add: round_even_def)

lemma round_even_range: "\<lfloor>x\<rfloor> \<le> round_even x" "round_even x \<le> \<lfloor>x\<rfloor> + 1"
  by (simp_all add: round_even_def Let_def)

lemma round_even_minus: "round_even (- x) = - round_even x"
proof (cases "x \<in> \<int>")
  case True
  then obtain n :: int where "x = of_int n" by (auto elim: Ints_cases)
  then have "- x = of_int (- n)" by simp
  then have "round_even (- x) = - n" by (simp only: round_even_of_int)
  with \<open>x = of_int n\<close> show ?thesis by simp
next
  case False
  then have "x \<noteq> of_int \<lfloor>x\<rfloor>" by (metis Ints_of_int)
  then have f: "\<lfloor>- x\<rfloor> = - \<lfloor>x\<rfloor> - 1"
    by (simp add: floor_minus ceiling_altdef)
  have r: "- x - of_int \<lfloor>- x\<rfloor> = 1 - (x - of_int \<lfloor>x\<rfloor>)" unfolding f by simp
  show ?thesis
    unfolding round_even_def Let_def r unfolding f by auto
qed

lemma round_even_mono: "x \<le> y \<Longrightarrow> round_even x \<le> round_even y"
proof -
  assume le: "x \<le> y"
  then have "\<lfloor>x\<rfloor> \<le> \<lfloor>y\<rfloor>" by (rule floor_mono)
  then consider "\<lfloor>x\<rfloor> = \<lfloor>y\<rfloor>" | "\<lfloor>x\<rfloor> + 1 \<le> \<lfloor>y\<rfloor>" by linarith
  then show ?thesis
  proof cases
    case 1
    with le show ?thesis by (auto simp add: round_even_def Let_def)
  next
    case 2
    with round_even_range(2) [of x] round_even_range(1) [of y] show ?thesis by linarith
  qed
qed

lemma round_even_error: "\<bar>of_int (round_even x) - x\<bar> \<le> 1 / 2"
  unfolding round_even_def Let_def by (auto simp: abs_if) linarith+



lemma two_powi_powr: "(2::real) powi e = 2 powr (real_of_int e)"
  by (simp add: powr_real_of_int')

lemma log2_bounds:
  fixes x :: real
  assumes "x \<noteq> 0"
  shows "2 powi \<lfloor>log 2 \<bar>x\<bar>\<rfloor> \<le> \<bar>x\<bar>" and "\<bar>x\<bar> < 2 powi (\<lfloor>log 2 \<bar>x\<bar>\<rfloor> + 1)"
proof -
  from assms have p: "0 < \<bar>x\<bar>" by simp
  then have e: "\<bar>x\<bar> = 2 powr (log 2 \<bar>x\<bar>)" by simp
  have "2 powr (real_of_int \<lfloor>log 2 \<bar>x\<bar>\<rfloor>) \<le> 2 powr (log 2 \<bar>x\<bar>)"
    by (rule powr_mono) simp_all
  with e show "2 powi \<lfloor>log 2 \<bar>x\<bar>\<rfloor> \<le> \<bar>x\<bar>" by (simp only: two_powi_powr)
  have "2 powr (log 2 \<bar>x\<bar>) < 2 powr (real_of_int (\<lfloor>log 2 \<bar>x\<bar>\<rfloor> + 1))"
    by (rule powr_less_mono) simp_all
  with e show "\<bar>x\<bar> < 2 powi (\<lfloor>log 2 \<bar>x\<bar>\<rfloor> + 1)" by (simp only: two_powi_powr)
qed

lemma floor_log2_eq:
  fixes x :: real
  assumes "2 powi e \<le> \<bar>x\<bar>" "\<bar>x\<bar> < 2 powi (e + 1)"
  shows "\<lfloor>log 2 \<bar>x\<bar>\<rfloor> = e"
proof -
  have "0 < (2::real) powi e" by simp
  with assms(1) have p: "0 < \<bar>x\<bar>" by linarith
  from assms(1) have "2 powr (real_of_int e) \<le> \<bar>x\<bar>" by (simp only: two_powi_powr)
  with p have a: "real_of_int e \<le> log 2 \<bar>x\<bar>" by (simp add: le_log_iff)
  from assms(2) have "\<bar>x\<bar> < 2 powr (real_of_int (e + 1))" by (simp only: two_powi_powr)
  with p have b: "log 2 \<bar>x\<bar> < real_of_int e + 1" by (simp add: log_less_iff)
  from a b show ?thesis by (rule floor_unique)
qed



lemma fp_ulp_pos: "0 < fp_ulp p emin x"
  by (simp add: fp_ulp_def)

lemma fp_ulp_minus: "fp_ulp p emin (- x) = fp_ulp p emin x"
  by (simp add: fp_ulp_def fp_exp_def)

lemma round_fp_0 [simp]: "round_fp p emin 0 = 0"
  by (simp add: round_fp_def)

lemma round_fp_minus: "round_fp p emin (- x) = - round_fp p emin x"
  by (simp add: round_fp_def fp_ulp_minus round_even_minus)

lemma fp_exp_eq:
  assumes "2 powi e \<le> \<bar>x\<bar>" "\<bar>x\<bar> < 2 powi (e + 1)"
  shows "fp_exp emin x = max e emin"
  unfolding fp_exp_def floor_log2_eq [OF assms] ..

lemma fp_exp_mono:
  assumes "x \<noteq> 0" "\<bar>x\<bar> \<le> \<bar>y\<bar>"
  shows "fp_exp emin x \<le> fp_exp emin y"
proof -
  from assms have "log 2 \<bar>x\<bar> \<le> log 2 \<bar>y\<bar>" by simp
  then have "\<lfloor>log 2 \<bar>x\<bar>\<rfloor> \<le> \<lfloor>log 2 \<bar>y\<bar>\<rfloor>" by (rule floor_mono)
  then show ?thesis by (simp add: fp_exp_def)
qed

lemma two_powi_add: "(2::real) powi a * 2 powi b = 2 powi (a + b)"
  by (simp add: power_int_add)

lemma round_even_0 [simp]: "round_even 0 = 0"
  using round_even_of_int [of 0] by simp

lemma round_even_power2 [simp]: "round_even (2 ^ n) = 2 ^ n"
  using round_even_of_int [of "2 ^ n"] by simp

lemma fp_ulp_times: "2 ^ p * fp_ulp p emin x = 2 powi (fp_exp emin x + 1)"
proof -
  have e: "int p + (fp_exp emin x - (int p - 1)) = fp_exp emin x + 1" by simp
  have "2 ^ p * fp_ulp p emin x = 2 powi (int p) * 2 powi (fp_exp emin x - (int p - 1))"
    by (simp add: fp_ulp_def)
  also have "\<dots> = 2 powi (int p + (fp_exp emin x - (int p - 1)))" by (rule two_powi_add)
  finally show ?thesis by (simp only: e)
qed

lemma fp_ulp_times_pred:
  assumes "0 < p"
  shows "2 ^ (p - 1) * fp_ulp p emin x = 2 powi (fp_exp emin x)"
proof -
  from assms have e: "int (p - 1) + (fp_exp emin x - (int p - 1)) = fp_exp emin x" by simp
  have "2 ^ (p - 1) * fp_ulp p emin x
        = 2 powi (int (p - 1)) * 2 powi (fp_exp emin x - (int p - 1))"
    by (simp add: fp_ulp_def)
  also have "\<dots> = 2 powi (int (p - 1) + (fp_exp emin x - (int p - 1)))" by (rule two_powi_add)
  finally show ?thesis by (simp only: e)
qed

lemma round_quot_le:
  assumes "0 < x"
  shows "round_even (x / fp_ulp p emin x) \<le> 2 ^ p"
proof -
  let ?u = "fp_ulp p emin x"
  from assms have nz: "x \<noteq> 0" by simp
  from log2_bounds(2) [OF nz] assms have "x < 2 powi (\<lfloor>log 2 \<bar>x\<bar>\<rfloor> + 1)" by simp
  also have "\<dots> \<le> 2 powi (fp_exp emin x + 1)"
    by (rule power_int_increasing) (simp_all add: fp_exp_def)
  finally have "x < 2 ^ p * ?u" by (simp only: fp_ulp_times)
  with fp_ulp_pos [of p emin x] have "x / ?u \<le> 2 ^ p"
    by (simp add: field_simps)
  then have "round_even (x / ?u) \<le> round_even (2 ^ p)" by (rule round_even_mono)
  then show ?thesis by (simp only: round_even_power2)
qed

lemma round_quot_ge:
  assumes "0 \<le> x"
  shows "0 \<le> round_even (x / fp_ulp p emin x)"
proof -
  from assms fp_ulp_pos [of p emin x] have "0 \<le> x / fp_ulp p emin x" by simp
  then have "round_even 0 \<le> round_even (x / fp_ulp p emin x)" by (rule round_even_mono)
  then show ?thesis by simp
qed

lemma round_fp_nonneg:
  assumes "0 \<le> x"
  shows "0 \<le> round_fp p emin x"
  using round_quot_ge [OF assms, of p emin] fp_ulp_pos [of p emin x]
  by (simp add: round_fp_def)

lemma round_fp_upper:
  assumes "0 < x"
  shows "round_fp p emin x \<le> 2 powi (fp_exp emin x + 1)"
proof -
  let ?u = "fp_ulp p emin x"
  from assms have nz: "x \<noteq> 0" by simp
  from round_quot_le [OF assms]
  have "real_of_int (round_even (x / ?u)) \<le> real_of_int (2 ^ p)"
    by (simp only: of_int_le_iff)
  then have "real_of_int (round_even (x / ?u)) \<le> 2 ^ p" by simp
  with fp_ulp_pos [of p emin x] have "real_of_int (round_even (x / ?u)) * ?u \<le> 2 ^ p * ?u"
    by (simp only: mult_le_cancel_right_pos)
  moreover from nz have "round_fp p emin x = real_of_int (round_even (x / ?u)) * ?u"
    by (simp add: round_fp_def)
  ultimately show ?thesis by (simp only: fp_ulp_times)
qed

lemma round_fp_lower:
  assumes "0 < x" "emin \<le> \<lfloor>log 2 \<bar>x\<bar>\<rfloor>" "0 < p"
  shows "2 powi (fp_exp emin x) \<le> round_fp p emin x"
proof -
  let ?u = "fp_ulp p emin x"
  from assms have nz: "x \<noteq> 0" by simp
  from assms(2) have e: "fp_exp emin x = \<lfloor>log 2 \<bar>x\<bar>\<rfloor>" by (simp add: fp_exp_def)
  note t = fp_ulp_times_pred [OF assms(3), of emin x]
  from log2_bounds(1) [OF nz] assms(1) e have "2 powi (fp_exp emin x) \<le> x" by simp
  then have "2 ^ (p - 1) * ?u \<le> x" by (simp only: t)
  with fp_ulp_pos [of p emin x] have "2 ^ (p - 1) \<le> x / ?u"
    by (simp add: field_simps)
  then have "round_even (2 ^ (p - 1)) \<le> round_even (x / ?u)" by (rule round_even_mono)
  then have "2 ^ (p - 1) \<le> round_even (x / ?u)" by (simp only: round_even_power2)
  then have "real_of_int (2 ^ (p - 1)) \<le> real_of_int (round_even (x / ?u))"
    by (simp only: of_int_le_iff)
  then have "2 ^ (p - 1) \<le> real_of_int (round_even (x / ?u))" by simp
  with fp_ulp_pos [of p emin x] have "2 ^ (p - 1) * ?u \<le> real_of_int (round_even (x / ?u)) * ?u"
    by (simp only: mult_le_cancel_right_pos)
  moreover from nz have "round_fp p emin x = real_of_int (round_even (x / ?u)) * ?u"
    by (simp add: round_fp_def)
  ultimately show ?thesis by (simp only: t)
qed

lemma round_fp_mono_pos:
  assumes "0 < x" "x \<le> y" "0 < p"
  shows "round_fp p emin x \<le> round_fp p emin y"
proof -
  from assms have nz: "x \<noteq> 0" "y \<noteq> 0" and ypos: "0 < y" by simp_all
  from assms have "\<bar>x\<bar> \<le> \<bar>y\<bar>" by simp
  from fp_exp_mono [OF nz(1) this] have "fp_exp emin x \<le> fp_exp emin y" .
  then consider "fp_exp emin x = fp_exp emin y" | "fp_exp emin x + 1 \<le> fp_exp emin y" by linarith
  then show ?thesis
  proof cases
    case 1
    then have u: "fp_ulp p emin x = fp_ulp p emin y" by (simp add: fp_ulp_def)
    from assms(2) fp_ulp_pos [of p emin y] have "x / fp_ulp p emin y \<le> y / fp_ulp p emin y"
      by (simp add: divide_right_mono)
    then have "round_even (x / fp_ulp p emin y) \<le> round_even (y / fp_ulp p emin y)"
      by (rule round_even_mono)
    with fp_ulp_pos [of p emin y] nz show ?thesis
      by (simp add: round_fp_def u)
  next
    case 2
    have "emin \<le> fp_exp emin x" by (simp add: fp_exp_def)
    with 2 have "emin < fp_exp emin y" by simp
    then have n: "emin \<le> \<lfloor>log 2 \<bar>y\<bar>\<rfloor>" by (simp add: fp_exp_def split: if_splits)
    have "round_fp p emin x \<le> 2 powi (fp_exp emin x + 1)" by (rule round_fp_upper [OF assms(1)])
    also from 2 have "\<dots> \<le> 2 powi (fp_exp emin y)" by (intro power_int_increasing) simp_all
    also have "\<dots> \<le> round_fp p emin y" by (rule round_fp_lower [OF ypos n assms(3)])
    finally show ?thesis .
  qed
qed

lemma round_fp_mono:
  assumes "x \<le> y" "0 < p"
  shows "round_fp p emin x \<le> round_fp p emin y"
proof -
  consider "0 < x" | "x \<le> 0" "0 \<le> y" | "y < 0" by linarith
  then show ?thesis
  proof cases
    case 1
    from round_fp_mono_pos [OF 1 assms] show ?thesis .
  next
    case 2
    from 2(1) have "0 \<le> - x" by simp
    from round_fp_nonneg [OF this, of p emin] have "round_fp p emin x \<le> 0"
      by (simp add: round_fp_minus)
    with round_fp_nonneg [OF 2(2), of p emin] show ?thesis by linarith
  next
    case 3
    with assms have "0 < - y" "- y \<le> - x" by simp_all
    from round_fp_mono_pos [OF this assms(2), of emin] show ?thesis
      by (simp add: round_fp_minus)
  qed
qed



lemma round_fp_eval:
  assumes "2 powi e \<le> \<bar>x\<bar>" "\<bar>x\<bar> < 2 powi (e + 1)"
  shows "round_fp p emin x =
         of_int (round_even (x / 2 powi (max e emin - (int p - 1)))) * 2 powi (max e emin - (int p - 1))"
proof -
  have "x \<noteq> 0"
  proof
    assume "x = 0"
    with assms(1) have "(2::real) powi e \<le> 0" by simp
    moreover have "0 < (2::real) powi e" by simp
    ultimately show False by linarith
  qed
  then show ?thesis
    by (simp add: round_fp_def fp_ulp_def fp_exp_eq [OF assms])
qed

lemma round_fp_exact_less:
  assumes x: "x = of_int m * 2 powi k" and m: "\<bar>m\<bar> < 2 ^ p" and k: "emin - (int p - 1) \<le> k"
  shows "round_fp p emin x = x"
proof (cases "x = 0")
  case False
  let ?E = "fp_exp emin x"
  define d where "d = k - (?E - (int p - 1))"
  have "\<bar>x\<bar> = of_int \<bar>m\<bar> * 2 powi k" by (simp add: x abs_mult)
  also have "\<dots> < 2 ^ p * 2 powi k"
  proof -
    from m have "real_of_int \<bar>m\<bar> < real_of_int (2 ^ p)" by (simp only: of_int_less_iff)
    then have "real_of_int \<bar>m\<bar> < 2 ^ p" by simp
    then show ?thesis by (simp only: mult_less_cancel_right_pos zero_less_power_int zero_less_numeral)
  qed
  also have "\<dots> = 2 powi (int p) * 2 powi k" by simp
  also have "\<dots> = 2 powi (int p + k)" by (rule two_powi_add)
  finally have "2 powi \<lfloor>log 2 \<bar>x\<bar>\<rfloor> < (2::real) powi (int p + k)"
    using log2_bounds(1) [OF False] by linarith
  then have "\<lfloor>log 2 \<bar>x\<bar>\<rfloor> < int p + k"
    by (metis not_less power_int_increasing one_le_numeral)
  with k have "?E \<le> k + int p - 1" by (simp add: fp_exp_def)
  then have d: "0 \<le> d" by (simp add: d_def)
  have e: "k = d + (?E - (int p - 1))" by (simp add: d_def)
  define u where "u = fp_ulp p emin x"
  have upos: "0 < u" unfolding u_def by (rule fp_ulp_pos)
  have "2 powi k = 2 powi d * u"
    unfolding u_def fp_ulp_def two_powi_add e [symmetric] ..
  with x have "x = of_int m * 2 powi d * u" by (simp only: mult.assoc)
  with upos have "x / u = of_int m * 2 powi d" by simp
  then have "x / fp_ulp p emin x = of_int m * 2 powi d" by (simp only: u_def)
  also from d have "\<dots> = of_int (m * 2 ^ nat d)" by (simp add: power_int_def)
  finally have q: "x / fp_ulp p emin x = of_int (m * 2 ^ nat d)" .
  have "round_fp p emin x = of_int (round_even (x / fp_ulp p emin x)) * fp_ulp p emin x"
    using False by (simp add: round_fp_def)
  also have "\<dots> = x / fp_ulp p emin x * fp_ulp p emin x"
    unfolding q round_even_of_int ..
  also have "\<dots> = x" using fp_ulp_pos [of p emin x] by simp
  finally show ?thesis .
qed simp

lemma round_fp_exact:
  assumes x: "x = of_int m * 2 powi k" and m: "\<bar>m\<bar> \<le> 2 ^ p" and k: "emin - (int p - 1) \<le> k"
    and p: "0 < p"
  shows "round_fp p emin x = x"
proof (cases "\<bar>m\<bar> < 2 ^ p")
  case True
  from round_fp_exact_less [OF x True k] show ?thesis .
next
  case False
  with m have a: "\<bar>m\<bar> = 2 ^ p" by simp
  from p obtain q where q: "p = Suc q" by (cases p) simp_all
  from a have "m = 2 ^ p \<or> m = - (2 ^ p)" by (auto simp: abs_if split: if_splits)
  then obtain m' :: int where h: "m = m' * 2" "\<bar>m'\<bar> < 2 ^ p"
  proof
    assume "m = 2 ^ p"
    then have "m = 2 ^ q * 2" "\<bar>2 ^ q :: int\<bar> < 2 ^ p" by (simp_all add: q)
    then show thesis by (rule that)
  next
    assume "m = - (2 ^ p)"
    then have "m = (- (2 ^ q)) * 2" "\<bar>- (2 ^ q) :: int\<bar> < 2 ^ p" by (simp_all add: q)
    then show thesis by (rule that)
  qed
  have "real_of_int m * 2 powi k = real_of_int m' * (2 powi 1 * 2 powi k)"
    by (simp add: h(1))
  also have "\<dots> = real_of_int m' * 2 powi (1 + k)" by (simp only: two_powi_add)
  finally have x': "x = real_of_int m' * 2 powi (1 + k)" by (simp only: x)
  from k have "emin - (int p - 1) \<le> 1 + k" by simp
  from round_fp_exact_less [OF x' h(2) this] show ?thesis .
qed

lemma round_fp_idem_pos:
  assumes "0 < p" "0 < x"
  shows "round_fp p emin (round_fp p emin x) = round_fp p emin x"
proof -
  define j where "j = round_even (x / fp_ulp p emin x)"
  from assms(2) have "round_fp p emin x = of_int j * 2 powi (fp_exp emin x - (int p - 1))"
    by (simp add: round_fp_def j_def fp_ulp_def)
  moreover from round_quot_le [OF assms(2), of p emin] round_quot_ge [of x p emin] assms(2)
  have "\<bar>j\<bar> \<le> 2 ^ p" by (simp add: j_def)
  moreover have "emin - (int p - 1) \<le> fp_exp emin x - (int p - 1)" by (simp add: fp_exp_def)
  ultimately show ?thesis using assms(1) by (rule round_fp_exact)
qed

lemma round_fp_idem:
  assumes "0 < p"
  shows "round_fp p emin (round_fp p emin x) = round_fp p emin x"
proof -
  consider "x = 0" | "0 < x" | "0 < - x" by linarith
  then show ?thesis
  proof cases
    case 1
    then show ?thesis by simp
  next
    case 2
    from round_fp_idem_pos [OF assms 2] show ?thesis .
  next
    case 3
    from round_fp_idem_pos [OF assms 3, of emin] show ?thesis
      by (simp add: round_fp_minus)
  qed
qed



lemma to_double_minus: "to_double (- x) = - to_double x"
  by (simp add: to_double_def round_fp_minus)

lemma to_double_mono: "x \<le> y \<Longrightarrow> to_double x \<le> to_double y"
  by (simp add: to_double_def round_fp_mono)

lemma to_double_exact:
  assumes "x = of_int m * 2 powi k" "\<bar>m\<bar> \<le> 2 ^ 53" "- 1074 \<le> k"
  shows "to_double x = x"
  unfolding to_double_def using assms by (intro round_fp_exact [of x m k]) simp_all

lemma to_double_int:
  assumes "\<bar>n\<bar> \<le> 2 ^ 53"
  shows "to_double (of_int n) = of_int n"
proof -
  have "real_of_int n = of_int n * 2 powi 0" by simp
  from to_double_exact [OF this assms] show ?thesis by simp
qed

lemma floor_to_double_bracket:
  assumes "of_int n \<le> x" "x \<le> z" "z < of_int n + 1" "to_double z = z" "\<bar>n\<bar> \<le> 2 ^ 53"
  shows "\<lfloor>to_double x\<rfloor> = n"
proof (rule floor_unique)
  from to_double_mono [OF assms(1)] show "of_int n \<le> to_double x"
    by (simp only: to_double_int [OF assms(5)])
  from to_double_mono [OF assms(2)] assms(3,4) show "to_double x < of_int n + 1" by simp
qed

lemma to_double_fixed_multiple:
  assumes f: "to_double y = y" and b: "2 powi e \<le> \<bar>y\<bar>" "\<bar>y\<bar> < 2 powi (e + 1)" and e: "- 1022 \<le> e"
  shows "\<exists>j. y = of_int j * 2 powi (e - 52) \<and> \<bar>j\<bar> < 2 ^ 53"
proof -
  define j where "j = round_even (y / 2 powi (e - 52))"
  from e have m: "max e (- 1022) - (int 53 - 1) = e - 52" by simp
  from round_fp_eval [OF b, of 53 "- 1022"] f
  have y: "y = of_int j * 2 powi (e - 52)"
    unfolding to_double_def m j_def by simp
  have "2 ^ 53 * 2 powi (e - 52) = 2 powi (int 53) * (2::real) powi (e - 52)" by simp
  also have "\<dots> = 2 powi (int 53 + (e - 52))" by (rule two_powi_add)
  also have "int 53 + (e - 52) = e + 1" by simp
  finally have t: "2 ^ 53 * 2 powi (e - 52) = (2::real) powi (e + 1)" .
  from b(2) have "\<bar>real_of_int j\<bar> * 2 powi (e - 52) < 2 ^ 53 * 2 powi (e - 52)"
    unfolding t by (simp add: y abs_mult)
  then have "\<bar>real_of_int j\<bar> < 2 ^ 53"
    by (simp only: mult_less_cancel_right_pos zero_less_power_int zero_less_numeral)
  then have "real_of_int \<bar>j\<bar> < real_of_int (2 ^ 53)" by simp
  then have "\<bar>j\<bar> < 2 ^ 53" by (simp only: of_int_less_iff)
  with y show ?thesis by blast
qed



text \<open>
  The integer that \<^verbatim>\<open>std::floor (0.5 + y)\<close> returns for a \<^verbatim>\<open>double\<close> \<open>y\<close>: the sum is rounded
  to \<^verbatim>\<open>double\<close> before the floor is taken, which changes the floor for one value of
  \<open>y\<close> only.
\<close>

lemma floor_add_half_small:
  assumes "- 1 / 2 < y" "y \<le> 1 / 4"
  shows "\<lfloor>to_double (1 / 2 + y)\<rfloor> = 0"
proof (rule floor_to_double_bracket [where z = "3 / 4"])
  have "(3 / 4 :: real) = of_int 3 * 2 powi (- 2)" by simp
  then show "to_double (3 / 4) = 3 / 4" by (rule to_double_exact) simp_all
qed (use assms in simp_all)

lemma to_double_below_one: "to_double (1 - 1 / 2 ^ 54) = 1"
proof -
  have b: "2 powi (- 1) \<le> \<bar>1 - 1 / 2 ^ 54 :: real\<bar>" "\<bar>1 - 1 / 2 ^ 54 :: real\<bar> < 2 powi (- 1 + 1)"
    by simp_all
  have r: "round_even (18014398509481983 / 2) = 9007199254740992"
    by (simp add: round_even_def Let_def)
  show ?thesis
    unfolding to_double_def round_fp_eval [OF b] by (simp add: r)
qed

lemma floor_add_half_quarter:
  assumes f: "to_double y = y" and y: "1 / 4 < y" "y < 1 / 2"
  shows "\<lfloor>to_double (1 / 2 + y)\<rfloor> = (if y = (2 ^ 53 - 1) / 2 ^ 54 then 1 else 0)"
proof -
  from y have b: "2 powi (- 2) \<le> \<bar>y\<bar>" "\<bar>y\<bar> < 2 powi (- 2 + 1)" by simp_all
  from to_double_fixed_multiple [OF f b] obtain j where
    j: "y = of_int j * 2 powi (- 2 - 52)" "\<bar>j\<bar> < 2 ^ 53" by auto
  then have yj: "y = of_int j / 2 ^ 54" by simp
  show ?thesis
  proof (cases "j = 2 ^ 53 - 1")
    case True
    with yj have e: "y = (2 ^ 53 - 1) / 2 ^ 54" by simp
    then have "1 / 2 + y = 1 - 1 / 2 ^ 54" by simp
    then have "to_double (1 / 2 + y) = 1" by (simp only: to_double_below_one)
    with e show ?thesis by simp
  next
    case False
    with j(2) have "j \<le> 2 ^ 53 - 2" by simp
    then have "real_of_int j \<le> real_of_int (2 ^ 53 - 2)" by (simp only: of_int_le_iff)
    then have le: "y \<le> (2 ^ 53 - 2) / 2 ^ 54" by (simp add: yj)
    have ne: "y \<noteq> (2 ^ 53 - 1) / 2 ^ 54"
    proof
      assume "y = (2 ^ 53 - 1) / 2 ^ 54"
      with yj have "real_of_int j = real_of_int (2 ^ 53 - 1)" by simp
      then have "j = 2 ^ 53 - 1" by (simp only: of_int_eq_iff)
      with False show False ..
    qed
    have "(1 - 1 / 2 ^ 53 :: real) = of_int (2 ^ 53 - 1) * 2 powi (- 53)" by simp
    then have z: "to_double (1 - 1 / 2 ^ 53) = 1 - 1 / 2 ^ 53" by (rule to_double_exact) simp_all
    have "\<lfloor>to_double (1 / 2 + y)\<rfloor> = 0"
      by (rule floor_to_double_bracket [where z = "1 - 1 / 2 ^ 53"]) (use y le z in simp_all)
    with ne show ?thesis by simp
  qed
qed



lemma two_powi_nat: "0 \<le> e \<Longrightarrow> (2::real) powi e = 2 ^ nat e"
  by (rule power_int_nonneg_exp)

lemma two_powi_le_iff: "(2::real) powi a \<le> 2 powi b \<longleftrightarrow> a \<le> b"
  by (metis not_less power_int_increasing power_int_strict_increasing one_le_numeral
        one_less_numeral_iff semiring_norm(76))

lemma two_powi_less_iff: "(2::real) powi a < 2 powi b \<longleftrightarrow> a < b"
  by (metis not_less power_int_increasing power_int_strict_increasing one_le_numeral
        one_less_numeral_iff semiring_norm(76))

lemma floor_add_half_large:
  assumes f: "to_double y = y" and y: "1 / 2 \<le> \<bar>y\<bar>" "\<bar>y\<bar> \<le> 2 ^ 50"
  shows "\<lfloor>to_double (1 / 2 + y)\<rfloor> = \<lfloor>1 / 2 + y\<rfloor>"
proof -
  define e where "e = \<lfloor>log 2 \<bar>y\<bar>\<rfloor>"
  from y(1) have nz: "y \<noteq> 0" by auto
  from log2_bounds [OF nz] have b: "2 powi e \<le> \<bar>y\<bar>" "\<bar>y\<bar> < 2 powi (e + 1)"
    by (simp_all add: e_def)
  from y(1) b(2) have "(2::real) powi (- 1) < 2 powi (e + 1)" by simp
  then have e1: "- 1 \<le> e" by (simp only: two_powi_less_iff)
  from y(2) b(1) have "(2::real) powi e \<le> 2 powi 50" by simp
  then have e2: "e \<le> 50" by (simp only: two_powi_le_iff)
  from e1 have "- 1022 \<le> e" by simp
  from to_double_fixed_multiple [OF f b this] obtain j where
    j: "y = of_int j * 2 powi (e - 52)" "\<bar>j\<bar> < 2 ^ 53" by auto
  define c where "c = nat (51 - e)"
  from e1 e2 have c: "int c = 51 - e" "1 \<le> c" "c \<le> 52" by (simp_all add: c_def)
  have "(2::real) ^ c * 2 powi (e - 52) = 2 powi (int c) * 2 powi (e - 52)" by simp
  also have "\<dots> = 2 powi (int c + (e - 52))" by (rule two_powi_add)
  also have "int c + (e - 52) = - 1" by (simp add: c(1))
  finally have h: "(2::real) ^ c * 2 powi (e - 52) = 1 / 2" by simp
  have x: "1 / 2 + y = of_int (j + 2 ^ c) * 2 powi (e - 52)"
    by (simp add: j(1) h algebra_simps)
  from c(3) have c52: "(2::int) ^ c \<le> 2 ^ 52" by (intro power_increasing) simp_all
  show ?thesis
  proof (cases "\<bar>j + 2 ^ c\<bar> \<le> 2 ^ 53")
    case True
    from e1 have "- 1074 \<le> e - 52" by simp
    from to_double_exact [OF x True this] show ?thesis by simp
  next
    case False
    have c0: "(0::int) < 2 ^ c" by simp
    from False j(2) c52 c0 have big: "2 ^ 53 < j + 2 ^ c" by linarith
    have "2 ^ 53 * 2 powi (e - 52) = 2 powi (int 53) * (2::real) powi (e - 52)" by simp
    also have "\<dots> = 2 powi (int 53 + (e - 52))" by (rule two_powi_add)
    also have "int 53 + (e - 52) = e + 1" by simp
    finally have t: "2 ^ 53 * 2 powi (e - 52) = (2::real) powi (e + 1)" .
    define n :: int where "n = 2 ^ nat (e + 1)"
    from e1 have n: "real_of_int n = 2 powi (e + 1)" by (simp add: n_def two_powi_nat)
    from big have "real_of_int (2 ^ 53) < real_of_int (j + 2 ^ c)" by (simp only: of_int_less_iff)
    then have "2 ^ 53 * 2 powi (e - 52) < real_of_int (j + 2 ^ c) * 2 powi (e - 52)"
      by (simp del: of_int_add)
    then have lo: "real_of_int n < 1 / 2 + y" by (simp only: t x n)
    from big c52 have "0 < j" by simp
    with j(1) have "0 \<le> y" by simp
    with b(2) have hi: "1 / 2 + y < real_of_int n + 1 / 2" by (simp add: n)
    from e2 have "nat (e + 1) \<le> 51" by simp
    then have "(2::int) ^ nat (e + 1) \<le> 2 ^ 51" by (intro power_increasing) simp_all
    then have n51: "n \<le> 2 ^ 51" "0 \<le> n" by (simp_all add: n_def)
    have "real_of_int n + 1 / 2 = of_int (2 * n + 1) * 2 powi (- 1)" by simp
    moreover from n51 have "\<bar>2 * n + 1\<bar> \<le> 2 ^ 53" by simp
    ultimately have z: "to_double (real_of_int n + 1 / 2) = real_of_int n + 1 / 2"
      by (rule to_double_exact) simp
    from n51 have na: "\<bar>n\<bar> \<le> 2 ^ 53" by simp
    have "\<lfloor>to_double (1 / 2 + y)\<rfloor> = n"
      by (rule floor_to_double_bracket [where z = "real_of_int n + 1 / 2"])
         (use lo hi z na in simp_all)
    moreover have "\<lfloor>1 / 2 + y\<rfloor> = n"
      by (rule floor_unique) (use lo hi in simp_all)
    ultimately show ?thesis by simp
  qed
qed

lemma floor_add_half_double:
  assumes f: "to_double y = y" and y: "\<bar>y\<bar> \<le> 2 ^ 50"
  shows "\<lfloor>to_double (1 / 2 + y)\<rfloor> = \<lfloor>1 / 2 + y\<rfloor> + (if y = (2 ^ 53 - 1) / 2 ^ 54 then 1 else 0)"
proof -
  consider "1 / 2 \<le> \<bar>y\<bar>" | "- 1 / 2 < y" "y \<le> 1 / 4" | "1 / 4 < y" "y < 1 / 2" by linarith
  then show ?thesis
  proof cases
    case 1
    then have "y \<noteq> (2 ^ 53 - 1) / 2 ^ 54" by auto
    with floor_add_half_large [OF f 1 y] show ?thesis by simp
  next
    case 2
    then have "\<lfloor>1 / 2 + y\<rfloor> = 0" by (intro floor_unique) simp_all
    moreover from 2 have "y \<noteq> (2 ^ 53 - 1) / 2 ^ 54" by auto
    ultimately show ?thesis using floor_add_half_small [OF 2] by simp
  next
    case 3
    then have "\<lfloor>1 / 2 + y\<rfloor> = 0" by (intro floor_unique) simp_all
    with floor_add_half_quarter [OF f 3] show ?thesis by simp
  qed
qed



subsection \<open>The forward and the inverse twiddle table\<close>

lemma floor_half_sym:
  fixes y :: real
  shows "\<lfloor>1 / 2 + y\<rfloor> = - \<lfloor>1 / 2 - y\<rfloor> + (if y + 1 / 2 \<in> \<int> then 1 else 0)"
proof (cases "y + 1 / 2 \<in> \<int>")
  case True
  then obtain k :: int where k: "y + 1 / 2 = of_int k" by (auto elim: Ints_cases)
  then have a: "1 / 2 + y = of_int k" by simp
  from k have b: "1 / 2 - y = of_int (1 - k)" by simp
  have "\<lfloor>1 / 2 + y\<rfloor> = k" unfolding a by simp
  moreover have "\<lfloor>1 / 2 - y\<rfloor> = 1 - k" unfolding b by (simp only: floor_of_int)
  ultimately show ?thesis using True by simp
next
  case False
  define k where "k = \<lfloor>1 / 2 + y\<rfloor>"
  have "of_int k \<le> 1 / 2 + y" "1 / 2 + y < of_int k + 1" unfolding k_def by linarith+
  moreover have "of_int k \<noteq> 1 / 2 + y"
  proof
    assume "of_int k = 1 / 2 + y"
    then have "y + 1 / 2 = of_int k" by simp
    then have "y + 1 / 2 \<in> \<int>" by (simp only: Ints_of_int)
    with False show False ..
  qed
  ultimately have "of_int (- k) \<le> 1 / 2 - y" "1 / 2 - y < of_int (- k) + 1" by simp_all
  then have "\<lfloor>1 / 2 - y\<rfloor> = - k" by (rule floor_unique)
  with False show ?thesis by (simp add: k_def)
qed

lemma to_double_idem: "to_double (to_double x) = to_double x"
  by (simp add: to_double_def round_fp_idem)

lemma open_unit_not_int:
  fixes x :: real
  assumes "0 < x" "x < 1"
  shows "x \<notin> \<int>"
proof
  assume "x \<in> \<int>"
  then obtain k :: int where "x = of_int k" by (auto elim: Ints_cases)
  with assms have "0 < k" "k < 1" by simp_all
  then show False by simp
qed

lemma half_pred_bounds: "0 < half_pred" "half_pred < 1 / 2"
  by (simp_all add: half_pred_def)

lemma floor_tie_cases:
  "(if y = half_pred then 1 else 0) + (if y + 1 / 2 \<in> \<int> then 1 else 0)
   + (if - y = half_pred then 1 else 0) = (if floor_tie y then 1 else (0::int))"
proof -
  from half_pred_bounds have a: "half_pred + 1 / 2 \<notin> \<int>"
    by (intro open_unit_not_int) simp_all
  from half_pred_bounds have b: "- half_pred + 1 / 2 \<notin> \<int>"
    by (intro open_unit_not_int) simp_all
  consider "y = half_pred" | "y = - half_pred"
    | "y \<noteq> half_pred" "y \<noteq> - half_pred" by blast
  then show ?thesis
  proof cases
    case 1
    with a half_pred_bounds show ?thesis by (simp add: floor_tie_def)
  next
    case 2
    with b half_pred_bounds show ?thesis by (simp add: floor_tie_def)
  next
    case 3
    then have "\<bar>y\<bar> \<noteq> half_pred" "- y \<noteq> half_pred" by (auto simp: abs_if)
    with 3 show ?thesis by (simp add: floor_tie_def)
  qed
qed

lemma floor_add_half_pred:
  assumes "to_double y = y" "\<bar>y\<bar> \<le> 2 ^ 50"
  shows "\<lfloor>to_double (1 / 2 + y)\<rfloor> = \<lfloor>1 / 2 + y\<rfloor> + (if y = half_pred then 1 else 0)"
  unfolding half_pred_def by (rule floor_add_half_double [OF assms])

lemma abs_mult_le:
  fixes T s :: real
  assumes "0 \<le> T" "T \<le> c" "\<bar>s\<bar> \<le> 1"
  shows "- c \<le> T * s" "T * s \<le> c"
proof -
  from assms(1,3) have "\<bar>T * s\<bar> \<le> T * 1"
    unfolding abs_mult by (intro mult_mono) simp_all
  with assms(2) show "- c \<le> T * s" "T * s \<le> c" by simp_all
qed

lemma to_double_power2_31: "to_double (2 ^ 31) = 2 ^ 31" "to_double (- (2 ^ 31)) = - (2 ^ 31)"
proof -
  have "\<bar>2 ^ 31 :: int\<bar> \<le> 2 ^ 53" by simp
  from to_double_int [OF this] show a: "to_double (2 ^ 31) = 2 ^ 31" by simp
  then show "to_double (- (2 ^ 31)) = - (2 ^ 31)" by (simp only: to_double_minus)
qed

lemma ssin_T_int_symmetric:
  assumes s: "\<bar>s\<bar> \<le> 1" and B: "B \<le> 32"
  defines "T \<equiv> real_of_int (signed_max B)"
  shows "\<lfloor>dadd 0.5 (dmul (to_double T) (- s))\<rfloor>
         = - \<lfloor>dadd 0.5 (dmul (to_double T) s)\<rfloor> + (if floor_tie (dmul T s) then 1 else 0)"
proof -
  define m where "m = signed_max B"
  have "(2::int) ^ (B - 1) \<le> 2 ^ 31" using B by (intro power_increasing) simp_all
  moreover have "(0::int) < 2 ^ (B - 1)" by simp
  ultimately have m: "0 \<le> m" "m \<le> 2 ^ 31" by (simp_all add: m_def signed_max_def)
  then have "\<bar>m\<bar> \<le> 2 ^ 53" by simp
  then have tm: "to_double T = T" unfolding T_def m_def [symmetric] by (rule to_double_int)
  define y where "y = dmul T s"
  have yf: "to_double y = y" by (simp add: y_def dmul_def to_double_idem)
  have ym: "dmul T (- s) = - y" by (simp add: y_def dmul_def to_double_minus)
  from m(1) have T0: "0 \<le> T" unfolding T_def m_def [symmetric] by simp
  from m(2) have "real_of_int m \<le> real_of_int (2 ^ 31)" by (simp only: of_int_le_iff)
  then have T1: "T \<le> 2 ^ 31" unfolding T_def m_def [symmetric] by simp
  from abs_mult_le [OF T0 T1 s] have "to_double (- (2 ^ 31)) \<le> y" "y \<le> to_double (2 ^ 31)"
    unfolding y_def dmul_def by (simp_all only: to_double_mono)
  then have "- (2 ^ 31) \<le> y" "y \<le> 2 ^ 31" by (simp_all only: to_double_power2_31)
  then have yb: "\<bar>y\<bar> \<le> 2 ^ 50" "\<bar>- y\<bar> \<le> 2 ^ 50" by simp_all
  from yf have yf': "to_double (- y) = - y" by (simp add: to_double_minus)
  note f = floor_add_half_pred [OF yf yb(1)]
  note g = floor_add_half_pred [OF yf' yb(2)]
  have "\<lfloor>to_double (1 / 2 + - y)\<rfloor> = - \<lfloor>to_double (1 / 2 + y)\<rfloor> +
        ((if y = half_pred then 1 else 0) + (if y + 1 / 2 \<in> \<int> then 1 else 0)
         + (if - y = half_pred then 1 else 0))"
    unfolding f g using floor_half_sym [of y] by simp
  then show ?thesis
    unfolding floor_tie_cases tm ym dadd_def y_def [symmetric] by simp
qed



lemma twiddle_phase_negated: "dmul (twiddle_phase N i) (- 1) = - twiddle_phase N i"
  by (simp add: twiddle_phase_def dmul_def to_double_minus to_double_idem)

lemma make_twiddles_T_nth:
  assumes "i < N"
  shows "fst (make_twiddles_T L T N) ! i = cexp_T L T (twiddle_phase N i)"
    and "snd (make_twiddles_T L T N) ! i = cexp_T L T (- twiddle_phase N i)"
  using assms by (simp_all add: make_twiddles_T_def twiddle_phase_negated)

lemma to_float_minus: "to_float (- x) = - to_float x"
  by (simp add: to_float_def round_fp_minus)

text \<open>
  Claim C8, amended. The library functions \<^verbatim>\<open>std::cos\<close> and \<^verbatim>\<open>std::sin\<close> are any functions
  with an even cosine and an odd sine of magnitude at most 1. For every size \<open>N\<close> and
  every \<open>i < N\<close>: the real parts of the inverse and the forward entry are equal for every
  sample type; for a floating-point sample type the inverse entry is the conjugate of
  the forward entry; for a signed integer sample type of at most 32 bits the imaginary
  part of the inverse entry is the negative of the forward one, unless the \<^verbatim>\<open>double\<close>
  product \<open>y\<close> of the type's maximum and the sine of the phase is a tie of
  \<^verbatim>\<open>std::floor (0.5 + y)\<close>, where it is larger by one.
\<close>

theorem twiddle_tables_conjugate:
  assumes "libm_symmetric L" "i < N"
  shows "Re (snd (make_twiddles_T L T N) ! i) = Re (fst (make_twiddles_T L T N) ! i) \<and>
         (is_floating_point T \<longrightarrow>
            snd (make_twiddles_T L T N) ! i = cnj (fst (make_twiddles_T L T N) ! i)) \<and>
         (B \<le> 32 \<longrightarrow>
            Im (snd (make_twiddles_T L (SignedInt B) N) ! i) =
              - Im (fst (make_twiddles_T L (SignedInt B) N) ! i) +
              (if floor_tie (dmul (of_int (signed_max B)) (std_sin L (twiddle_phase N i)))
               then 1 else 0))"
proof -
  from assms(1) have c: "\<And>p. std_cos L (- p) = std_cos L p"
    and s: "\<And>p. std_sin L (- p) = - std_sin L p" and b: "\<And>p. \<bar>std_sin L p\<bar> \<le> 1"
    by (simp_all add: libm_symmetric_def)
  have re: "Re (snd (make_twiddles_T L T N) ! i) = Re (fst (make_twiddles_T L T N) ! i)"
    by (cases T) (simp_all add: make_twiddles_T_nth [OF assms(2)] cexp_T_def scos_T_def c)
  have fl: "snd (make_twiddles_T L T N) ! i = cnj (fst (make_twiddles_T L T N) ! i)"
    if "is_floating_point T"
    using that
    by (cases T)
       (simp_all add: make_twiddles_T_nth [OF assms(2)] cexp_T_def scos_T_def ssin_T_def c s
          to_float_minus complex_eq_iff)
  have im: "Im (snd (make_twiddles_T L (SignedInt B) N) ! i) =
              - Im (fst (make_twiddles_T L (SignedInt B) N) ! i) +
              (if floor_tie (dmul (of_int (signed_max B)) (std_sin L (twiddle_phase N i)))
               then 1 else 0)"
    if B: "B \<le> 32"
  proof -
    from ssin_T_int_symmetric [OF b [of "twiddle_phase N i"] B]
    have "\<lfloor>dadd 0.5 (dmul (to_double (real_of_int (signed_max B)))
                (std_sin L (- twiddle_phase N i)))\<rfloor>
          = - \<lfloor>dadd 0.5 (dmul (to_double (real_of_int (signed_max B)))
                (std_sin L (twiddle_phase N i)))\<rfloor>
            + (if floor_tie (dmul (real_of_int (signed_max B)) (std_sin L (twiddle_phase N i)))
               then 1 else 0)"
      unfolding s .
    then have "real_of_int \<lfloor>dadd 0.5 (dmul (to_double (real_of_int (signed_max B)))
                (std_sin L (- twiddle_phase N i)))\<rfloor>
          = real_of_int (- \<lfloor>dadd 0.5 (dmul (to_double (real_of_int (signed_max B)))
                (std_sin L (twiddle_phase N i)))\<rfloor>
            + (if floor_tie (dmul (real_of_int (signed_max B)) (std_sin L (twiddle_phase N i)))
               then 1 else 0))"
      by (simp only:)
    then show ?thesis
      by (simp add: make_twiddles_T_nth [OF assms(2)] cexp_T_def ssin_T_def)
  qed
  from re fl im show ?thesis by blast
qed

subsection \<open>The tables at \<open>N = 84\<close> and \<open>N = 12\<close> with a correctly rounded library\<close>

lemma to_double_one: "to_double 1 = 1" "to_double (- 1) = - 1"
proof -
  have "\<bar>1 :: int\<bar> \<le> 2 ^ 53" by simp
  from to_double_int [OF this] show a: "to_double 1 = 1" by simp
  then show "to_double (- 1) = - 1" by (simp only: to_double_minus)
qed

lemma libm_cr_symmetric: "libm_symmetric libm_cr"
proof -
  have "\<bar>to_double (sin p)\<bar> \<le> 1" for p
  proof -
    have "to_double (- 1) \<le> to_double (sin p)" "to_double (sin p) \<le> to_double 1"
      by (rule to_double_mono, simp)+
    then show ?thesis by (simp add: to_double_one)
  qed
  then show ?thesis
    by (simp add: libm_symmetric_def libm_cr_def to_double_minus)
qed



lemma round_even_eqI:
  assumes "of_int j - 1 / 2 < x" "x < of_int j + 1 / 2"
  shows "round_even x = j"
proof -
  from round_even_error [of x] assms
  have "\<bar>real_of_int (round_even x) - real_of_int j\<bar> < 1" by linarith
  then have "\<bar>real_of_int (round_even x - j)\<bar> < real_of_int 1" by simp
  then have "\<bar>round_even x - j\<bar> < 1" by (simp only: of_int_abs [symmetric] of_int_less_iff)
  then show ?thesis by simp
qed

lemma to_double_eval:
  assumes "2 powi e \<le> \<bar>x\<bar>" "\<bar>x\<bar> < 2 powi (e + 1)" "- 1022 \<le> e"
    "of_int j - 1 / 2 < x / 2 powi (e - 52)" "x / 2 powi (e - 52) < of_int j + 1 / 2"
  shows "to_double x = of_int j * 2 powi (e - 52)"
proof -
  from assms(3) have m: "max e (- 1022) - (int 53 - 1) = e - 52" by simp
  show ?thesis
    unfolding to_double_def round_fp_eval [OF assms(1,2)] m round_even_eqI [OF assms(4,5)] ..
qed

text \<open>
  The constant \<^verbatim>\<open>pi\<close> of the constructor. The literal has the suffix \<^verbatim>\<open>L\<close>; rounding it
  to a \<^verbatim>\<open>long double\<close> of 64 or of 113 bits first gives the same \<^verbatim>\<open>double\<close>.
\<close>

lemma pi_double_value: "pi_double = 884279719003555 / 2 ^ 48"
proof -
  have "to_double 3.141592653589793238 = of_int 7074237752028440 * 2 powi (1 - 52)"
    by (rule to_double_eval) simp_all
  then show ?thesis by (simp add: pi_double_def)
qed

lemma pi_double_long_double:
  "to_double (round_fp 64 (- 16382) 3.141592653589793238) = pi_double"
  "to_double (round_fp 113 (- 16382) 3.141592653589793238) = pi_double"
proof -
  have b: "2 powi 1 \<le> \<bar>3.141592653589793238 :: real\<bar>"
    "\<bar>3.141592653589793238 :: real\<bar> < 2 powi (1 + 1)" by simp_all
  have "round_even (3.141592653589793238 / 2 powi (- 62)) = 14488038916154245683"
    by (rule round_even_eqI) simp_all
  then have x: "round_fp 64 (- 16382) 3.141592653589793238 = 14488038916154245683 / 2 ^ 62"
    unfolding round_fp_eval [OF b] by simp
  have "to_double (14488038916154245683 / 2 ^ 62) = of_int 7074237752028440 * 2 powi (1 - 52)"
    by (rule to_double_eval) simp_all
  then show "to_double (round_fp 64 (- 16382) 3.141592653589793238) = pi_double"
    unfolding x pi_double_value by simp
  have "round_even (3.141592653589793238 / 2 powi (- 111)) = 8156040833015188199632652188562093"
    by (rule round_even_eqI) simp_all
  then have y: "round_fp 113 (- 16382) 3.141592653589793238
                = 8156040833015188199632652188562093 / 2 ^ 111"
    unfolding round_fp_eval [OF b] by simp
  have "to_double (8156040833015188199632652188562093 / 2 ^ 111)
        = of_int 7074237752028440 * 2 powi (1 - 52)"
    by (rule to_double_eval) simp_all
  then show "to_double (round_fp 113 (- 16382) 3.141592653589793238) = pi_double"
    unfolding y pi_double_value by simp
qed

lemma minus_two_pi_double: "dmul (- 2) pi_double = - 884279719003555 / 2 ^ 47"
proof -
  have "(- 884279719003555 / 2 ^ 47 :: real) = of_int (- 884279719003555) * 2 powi (- 47)" by simp
  then have "to_double (- 884279719003555 / 2 ^ 47) = - 884279719003555 / 2 ^ 47"
    by (rule to_double_exact) simp_all
  moreover have "- 2 * pi_double = - 884279719003555 / 2 ^ 47" by (simp add: pi_double_value)
  ultimately show ?thesis by (simp only: dmul_def)
qed

lemma to_double_numeral:
  assumes "(numeral k :: int) \<le> 2 ^ 53"
  shows "to_double (numeral k) = numeral k"
proof -
  from assms have "\<bar>numeral k :: int\<bar> \<le> 2 ^ 53" by simp
  from to_double_int [OF this] show ?thesis by simp
qed

lemma twiddle_factor_84: "twiddle_factor 84 = - 5389895430116907 / 2 ^ 56"
proof -
  have "to_double (- 884279719003555 / 2 ^ 47 / 84) = of_int (- 5389895430116907) * 2 powi (- 4 - 52)"
    by (rule to_double_eval) simp_all
  then show ?thesis
    by (simp add: twiddle_factor_def minus_two_pi_double to_double_numeral ddiv_def)
qed

lemma twiddle_phase_84_7: "twiddle_phase 84 7 = - 2358079250676147 / 2 ^ 52"
proof -
  have "to_double (- 5389895430116907 / 2 ^ 56 * 7) = of_int (- 4716158501352294) * 2 powi (- 1 - 52)"
    by (rule to_double_eval) simp_all
  then show ?thesis
    by (simp add: twiddle_phase_def twiddle_factor_84 to_double_numeral dmul_def)
qed



text \<open>
  The sine of the phase at \<open>N = 84\<close>, \<open>i = 7\<close> lies between \<open>1 / 2\<close> and the midpoint to the
  next \<^verbatim>\<open>double\<close>, by the Taylor polynomial of degree 15 and its remainder.
\<close>

lemma sin_phase_84_7:
  "1 / 2 \<le> sin (2358079250676147 / 2 ^ 52 :: real)"
  "sin (2358079250676147 / 2 ^ 52 :: real) < 1 / 2 + 1 / 2 ^ 54"
proof -
  define a :: real where "a = 2358079250676147 / 2 ^ 52"
  define P where "P = (\<Sum>m<17. sin_coeff m * a ^ m)"
  define R where "R = inverse (fact 17) * \<bar>a\<bar> ^ 17"
  have "\<bar>sin a - P\<bar> \<le> R" unfolding P_def R_def by (rule Maclaurin_sin_bound)
  moreover have "1 / 2 \<le> P - R"
    unfolding P_def R_def a_def
    by (simp add: sin_coeff_def lessThan_nat_numeral lessThan_Suc fact_numeral power_divide)
  moreover have "P + R < 1 / 2 + 1 / 2 ^ 54"
    unfolding P_def R_def a_def
    by (simp add: sin_coeff_def lessThan_nat_numeral lessThan_Suc fact_numeral power_divide)
  ultimately have "1 / 2 \<le> sin a" "sin a < 1 / 2 + 1 / 2 ^ 54" by linarith+
  then show "1 / 2 \<le> sin (2358079250676147 / 2 ^ 52 :: real)"
    "sin (2358079250676147 / 2 ^ 52 :: real) < 1 / 2 + 1 / 2 ^ 54"
    unfolding a_def .
qed

lemma to_double_above_half:
  assumes "1 / 2 \<le> s" "s < 1 / 2 + 1 / 2 ^ 54"
  shows "to_double s = 1 / 2"
proof -
  have "to_double s = of_int (2 ^ 52) * 2 powi (- 1 - 52)"
    by (rule to_double_eval) (use assms in \<open>simp_all add: field_simps\<close>)
  then show ?thesis by simp
qed

lemma std_sin_84_7:
  "std_sin libm_cr (twiddle_phase 84 7) = - 1 / 2" "std_sin libm_cr (- twiddle_phase 84 7) = 1 / 2"
proof -
  from to_double_above_half [OF sin_phase_84_7]
  have h: "to_double (sin (2358079250676147 / 2 ^ 52)) = 1 / 2" .
  then show "std_sin libm_cr (- twiddle_phase 84 7) = 1 / 2"
    by (simp add: libm_cr_def twiddle_phase_84_7)
  from h show "std_sin libm_cr (twiddle_phase 84 7) = - 1 / 2"
    by (simp add: libm_cr_def twiddle_phase_84_7 to_double_minus)
qed



lemma to_double_half_odd:
  assumes "\<bar>m\<bar> \<le> 2 ^ 53"
  shows "to_double (of_int m / 2) = of_int m / 2"
proof -
  have "real_of_int m / 2 = of_int m * 2 powi (- 1)" by simp
  from to_double_exact [OF this assms] show ?thesis by simp
qed

lemma signed_max_16: "signed_max 16 = 32767"
  by (simp add: signed_max_def)

lemma ssin_int16_half:
  "\<lfloor>dadd (1 / 2) (dmul (to_double 32767) (1 / 2))\<rfloor> = 16384"
  "\<lfloor>dadd (1 / 2) (dmul (to_double 32767) (- (1 / 2)))\<rfloor> = - 16383"
proof -
  have a: "to_double (32767 / 2) = 32767 / 2" "to_double (- 32767 / 2) = - 32767 / 2"
    using to_double_half_odd [of 32767] to_double_half_odd [of "- 32767"] by simp_all
  have b: "to_double (- 16383) = - 16383"
    using to_double_int [of "- 16383"] by simp
  show "\<lfloor>dadd (1 / 2) (dmul (to_double 32767) (1 / 2))\<rfloor> = 16384"
    by (simp add: dadd_def dmul_def to_double_numeral a)
  show "\<lfloor>dadd (1 / 2) (dmul (to_double 32767) (- (1 / 2)))\<rfloor> = - 16383"
    using a(2) b by (simp add: dadd_def dmul_def to_double_numeral)
qed

lemma twiddles_84_7:
  "Im (fst (make_twiddles_T libm_cr (SignedInt 16) 84) ! 7) = - 16383"
  "Im (snd (make_twiddles_T libm_cr (SignedInt 16) 84) ! 7) = 16384"
proof -
  have h: "(7::nat) < 84" by simp
  show "Im (fst (make_twiddles_T libm_cr (SignedInt 16) 84) ! 7) = - 16383"
    unfolding make_twiddles_T_nth [OF h] cexp_T_def ssin_T_def std_sin_84_7
    by (simp add: ssin_int16_half signed_max_16)
  show "Im (snd (make_twiddles_T libm_cr (SignedInt 16) 84) ! 7) = 16384"
    unfolding make_twiddles_T_nth [OF h] cexp_T_def ssin_T_def std_sin_84_7
    by (simp add: ssin_int16_half signed_max_16)
qed

lemma floor_tie_84_7:
  "floor_tie (dmul (of_int (signed_max 16)) (std_sin libm_cr (twiddle_phase 84 7)))"
proof -
  have a: "to_double (- 32767 / 2) = - 32767 / 2"
    using to_double_half_odd [of "- 32767"] by simp
  have "(- 32767 / 2 + 1 / 2 :: real) = of_int (- 16383)" by simp
  then have "(- 32767 / 2 + 1 / 2 :: real) \<in> \<int>" by (simp only: Ints_of_int)
  then show ?thesis
    unfolding std_sin_84_7 using a by (simp add: floor_tie_def dmul_def signed_max_16)
qed

text \<open>
  At \<open>N = 12\<close>, \<open>i = 1\<close> the exact sine is \<open>1 / 2\<close> as well, but the phase is another
  \<^verbatim>\<open>double\<close>: its sine rounds to the largest \<^verbatim>\<open>double\<close> below \<open>1 / 2\<close>, the product with
  32767 is no tie, and the imaginary parts of the 16-bit entries are \<open>- 16383\<close> and
  \<open>16383\<close>.
\<close>

lemma twiddle_phase_12_1: "twiddle_phase 12 1 = - 4716158501352293 / 2 ^ 53"
proof -
  have "to_double (- 884279719003555 / 2 ^ 47 / 12) = of_int (- 4716158501352293) * 2 powi (- 1 - 52)"
    by (rule to_double_eval) simp_all
  then have f: "twiddle_factor 12 = - 4716158501352293 / 2 ^ 53"
    by (simp add: twiddle_factor_def minus_two_pi_double to_double_numeral ddiv_def)
  have "to_double (twiddle_factor 12) = twiddle_factor 12"
    by (simp add: twiddle_factor_def ddiv_def to_double_idem)
  then show ?thesis
    using to_double_one(1) by (simp add: twiddle_phase_def dmul_def f)
qed

lemma sin_phase_12_1:
  "1 / 2 - 3 / 2 ^ 55 < sin (4716158501352293 / 2 ^ 53 :: real)"
  "sin (4716158501352293 / 2 ^ 53 :: real) < 1 / 2 - 1 / 2 ^ 55"
proof -
  define a :: real where "a = 4716158501352293 / 2 ^ 53"
  define P where "P = (\<Sum>m<17. sin_coeff m * a ^ m)"
  define R where "R = inverse (fact 17) * \<bar>a\<bar> ^ 17"
  have "\<bar>sin a - P\<bar> \<le> R" unfolding P_def R_def by (rule Maclaurin_sin_bound)
  moreover have "1 / 2 - 3 / 2 ^ 55 < P - R"
    unfolding P_def R_def a_def
    by (simp add: sin_coeff_def lessThan_nat_numeral lessThan_Suc fact_numeral power_divide)
  moreover have "P + R < 1 / 2 - 1 / 2 ^ 55"
    unfolding P_def R_def a_def
    by (simp add: sin_coeff_def lessThan_nat_numeral lessThan_Suc fact_numeral power_divide)
  ultimately have "1 / 2 - 3 / 2 ^ 55 < sin a" "sin a < 1 / 2 - 1 / 2 ^ 55" by linarith+
  then show "1 / 2 - 3 / 2 ^ 55 < sin (4716158501352293 / 2 ^ 53 :: real)"
    "sin (4716158501352293 / 2 ^ 53 :: real) < 1 / 2 - 1 / 2 ^ 55"
    unfolding a_def .
qed

lemma to_double_below_half:
  assumes "1 / 2 - 3 / 2 ^ 55 < s" "s < 1 / 2 - 1 / 2 ^ 55"
  shows "to_double s = half_pred"
proof -
  have "to_double s = of_int (2 ^ 53 - 1) * 2 powi (- 2 - 52)"
    by (rule to_double_eval) (use assms in \<open>simp_all add: field_simps\<close>)
  then show ?thesis by (simp add: half_pred_def)
qed

lemma std_sin_12_1:
  "std_sin libm_cr (twiddle_phase 12 1) = - half_pred" "std_sin libm_cr (- twiddle_phase 12 1) = half_pred"
proof -
  from to_double_below_half [OF sin_phase_12_1]
  have h: "to_double (sin (4716158501352293 / 2 ^ 53)) = half_pred" .
  then show "std_sin libm_cr (- twiddle_phase 12 1) = half_pred"
    unfolding twiddle_phase_12_1 by (simp add: libm_cr_def)
  from h show "std_sin libm_cr (twiddle_phase 12 1) = - half_pred"
    unfolding twiddle_phase_12_1 by (simp add: libm_cr_def to_double_minus)
qed

lemma ssin_int16_half_pred:
  "\<lfloor>dadd (1 / 2) (dmul (to_double 32767) half_pred)\<rfloor> = 16383"
  "\<lfloor>dadd (1 / 2) (dmul (to_double 32767) (- half_pred))\<rfloor> = - 16383"
proof -
  have "to_double (32767 * half_pred) = of_int 9006924376834047 * 2 powi (13 - 52)"
    by (rule to_double_eval) (simp_all add: half_pred_def)
  then have y: "dmul (to_double 32767) half_pred = 9006924376834047 / 2 ^ 39"
    by (simp add: dmul_def to_double_numeral)
  then have y': "dmul (to_double 32767) (- half_pred) = - (9006924376834047 / 2 ^ 39)"
    by (simp add: dmul_def to_double_minus)
  have "(1 / 2 + 9006924376834047 / 2 ^ 39 :: real) = of_int 9007199254740991 * 2 powi (- 39)"
    by simp
  then have a: "to_double (1 / 2 + 9006924376834047 / 2 ^ 39) = 1 / 2 + 9006924376834047 / 2 ^ 39"
    by (rule to_double_exact) simp_all
  have "(1 / 2 + - (9006924376834047 / 2 ^ 39) :: real) = of_int (- 9006649498927103) * 2 powi (- 39)"
    by simp
  then have b: "to_double (1 / 2 + - (9006924376834047 / 2 ^ 39))
                = 1 / 2 + - (9006924376834047 / 2 ^ 39)"
    by (rule to_double_exact) simp_all
  show "\<lfloor>dadd (1 / 2) (dmul (to_double 32767) half_pred)\<rfloor> = 16383"
    unfolding dadd_def y a by (rule floor_unique) simp_all
  show "\<lfloor>dadd (1 / 2) (dmul (to_double 32767) (- half_pred))\<rfloor> = - 16383"
    unfolding dadd_def y' b by (rule floor_unique) simp_all
qed

lemma twiddles_12_1:
  "Im (fst (make_twiddles_T libm_cr (SignedInt 16) 12) ! 1) = - 16383"
  "Im (snd (make_twiddles_T libm_cr (SignedInt 16) 12) ! 1) = 16383"
proof -
  have h: "(1::nat) < 12" by simp
  show "Im (fst (make_twiddles_T libm_cr (SignedInt 16) 12) ! 1) = - 16383"
    unfolding make_twiddles_T_nth [OF h] cexp_T_def ssin_T_def std_sin_12_1
    by (simp add: ssin_int16_half_pred signed_max_16)
  show "Im (snd (make_twiddles_T libm_cr (SignedInt 16) 12) ! 1) = 16383"
    unfolding make_twiddles_T_nth [OF h] cexp_T_def ssin_T_def std_sin_12_1
    by (simp add: ssin_int16_half_pred signed_max_16)
qed

text \<open>
  Claim C8 as stated fails for the 16-bit sample type at \<open>N = 84\<close>, \<open>i = 7\<close>, with a
  correctly rounded library: the phase is the \<^verbatim>\<open>double\<close> \<open>- 2358079250676147 / 2 ^ 52\<close>, its
  sine rounds to \<open>- 1 / 2\<close>, the product with 32767 is \<open>- 16383.5\<close>, and the rounding
  \<^verbatim>\<open>floor (0.5 + x)\<close> stores the imaginary part \<open>- 16383\<close> in the forward table and
  \<open>16384\<close> in the inverse table.
\<close>

theorem twiddle_tie_counterexample:
  "snd (make_twiddles_T libm_cr (SignedInt 16) 84) ! 7
     \<noteq> cnj (fst (make_twiddles_T libm_cr (SignedInt 16) 84) ! 7) \<and>
   Im (fst (make_twiddles_T libm_cr (SignedInt 16) 84) ! 7) = - 16383 \<and>
   Im (snd (make_twiddles_T libm_cr (SignedInt 16) 84) ! 7) = 16384"
proof -
  have "Im (snd (make_twiddles_T libm_cr (SignedInt 16) 84) ! 7)
        \<noteq> Im (cnj (fst (make_twiddles_T libm_cr (SignedInt 16) 84) ! 7))"
    by (simp add: twiddles_84_7)
  then have "snd (make_twiddles_T libm_cr (SignedInt 16) 84) ! 7
     \<noteq> cnj (fst (make_twiddles_T libm_cr (SignedInt 16) 84) ! 7)" by auto
  with twiddles_84_7 show ?thesis by simp
qed

text \<open>
  The amended claim C8 with the correctly rounded library at \<open>N = 84\<close>, \<open>i = 7\<close>: the
  \<^verbatim>\<open>float\<close> entries are conjugate, and the 16-bit entries are at a tie.
\<close>

theorem twiddle_tables_conjugate_witness:
  "libm_symmetric libm_cr \<and> (7::nat) < 84 \<and>
   Re (snd (make_twiddles_T libm_cr FloatT 84) ! 7) = Re (fst (make_twiddles_T libm_cr FloatT 84) ! 7) \<and>
   is_floating_point FloatT \<and>
   snd (make_twiddles_T libm_cr FloatT 84) ! 7 = cnj (fst (make_twiddles_T libm_cr FloatT 84) ! 7) \<and>
   (16::nat) \<le> 32 \<and>
   floor_tie (dmul (of_int (signed_max 16)) (std_sin libm_cr (twiddle_phase 84 7))) \<and>
   Im (snd (make_twiddles_T libm_cr (SignedInt 16) 84) ! 7)
     = - Im (fst (make_twiddles_T libm_cr (SignedInt 16) 84) ! 7) + 1"
proof -
  have h: "(7::nat) < 84" by simp
  from twiddle_tables_conjugate [OF libm_cr_symmetric h, where T = FloatT and B = 16]
    floor_tie_84_7
  have "Re (snd (make_twiddles_T libm_cr FloatT 84) ! 7) = Re (fst (make_twiddles_T libm_cr FloatT 84) ! 7)"
    "snd (make_twiddles_T libm_cr FloatT 84) ! 7 = cnj (fst (make_twiddles_T libm_cr FloatT 84) ! 7)"
    "Im (snd (make_twiddles_T libm_cr (SignedInt 16) 84) ! 7)
     = - Im (fst (make_twiddles_T libm_cr (SignedInt 16) 84) ! 7) + 1"
    by simp_all
  with libm_cr_symmetric h floor_tie_84_7 show ?thesis by simp
qed

end
